theory Spec2Isabelle
  imports Main "HOL-Library.Sublist"
begin

section \<open>Bytes, C strings and the library calls the program uses\<close>

text \<open>
  A file is the list of its bytes (\<open>string\<close> is \<open>char list\<close>, one \<open>char\<close> per byte).
  A C string in a buffer ends at the first NUL byte.
\<close>

definition NUL :: char where
  "NUL = CHR 0x00"

definition newline :: char where
  "newline = CHR 0x0A"

text \<open>\<open>cstr buf\<close>: what \<open>strlen\<close>, \<open>fputs\<close>, \<open>strcpy\<close>, \<open>strtok\<close> and \<open>strstr\<close> see of a buffer.\<close>

definition cstr :: "string \<Rightarrow> string" where
  "cstr buf = takeWhile (\<lambda>c. c \<noteq> NUL) buf"

definition strlen :: "string \<Rightarrow> nat" where
  "strlen buf = length (cstr buf)"

text \<open>
  \<open>fgets(buffer, size, f)\<close> reads at most \<open>size - 1\<close> bytes and stops after a newline or
  at end of file; it returns NULL (here \<open>None\<close>) when no byte could be read.
  \<open>fgets_chunk k inp\<close> is (bytes stored, rest of the stream) for a room of \<open>k\<close> bytes.
\<close>

fun fgets_chunk :: "nat \<Rightarrow> string \<Rightarrow> string \<times> string" where
  "fgets_chunk 0 inp = ([], inp)"
| "fgets_chunk (Suc k) [] = ([], [])"
| "fgets_chunk (Suc k) (c # cs) =
     (if c = newline then ([c], cs)
      else (case fgets_chunk k cs of (b, r) \<Rightarrow> (c # b, r)))"

definition fgets :: "nat \<Rightarrow> string \<Rightarrow> (string \<times> string) option" where
  "fgets sz inp = (if inp = [] then None else Some (fgets_chunk (sz - 1) inp))"

text \<open>
  \<open>"%d"\<close> of a number: \<open>dec\<close> prints a natural number in decimal, \<open>print_int\<close> an
  integer. \<open>snprintf(buf, size, ...)\<close> stores at most \<open>size - 1\<close> bytes of the text.
\<close>

function dec :: "nat \<Rightarrow> string" where
  "dec n =
     (if n < 10 then [''0123456789'' ! n]
      else dec (n div 10) @ [''0123456789'' ! (n mod 10)])"
  by pat_completeness auto
termination
  by (relation "measure id") auto

declare dec.simps [simp del]

definition print_int :: "int \<Rightarrow> string" where
  "print_int v = (if v < 0 then CHR ''-'' # dec (nat (- v)) else dec (nat v))"

definition snprintf :: "nat \<Rightarrow> string \<Rightarrow> string" where
  "snprintf sz s = take (sz - 1) s"

text \<open>
  The loops \<^verbatim>\<open>while ((bytes_read = read(fd, read_buffer, count)) > 0) { body }\<close> of the
  user functions: \<open>read\<close> on a regular file returns the next \<open>count\<close> bytes, fewer at the
  end of the file and 0 after it. \<open>body\<close> gets the bytes read and the state of the
  function's variables. \<open>read\<close> and \<open>write\<close> are taken to succeed (the branches for
  their failure return -1).
\<close>

function read_loop :: "nat \<Rightarrow> (string \<Rightarrow> 's \<Rightarrow> 's) \<Rightarrow> string \<Rightarrow> 's \<Rightarrow> 's" where
  "read_loop count body data s =
     (if count = 0 \<or> data = [] then s
      else read_loop count body (drop count data) (body (take count data) s))"
  by pat_completeness auto
termination
  by (relation "measure (\<lambda>(count, body, data, s). length data)") auto

declare read_loop.simps [simp del]

section \<open>Phase 1 of \<open>mapreduce\<close>: splitting the input (mapreduce.c, lines 36 and 47-71)\<close>

text \<open>
  The inner loop
  \<^verbatim>\<open>while (bytes_read < split_size && fgets(buffer, sizeof(buffer), input_file)) {
      fputs(buffer, split_file); bytes_read += strlen(buffer); }\<close>
  with \<open>char buffer[1024]\<close>. The state is \<open>bytes_read\<close>, the unread rest of the input and
  the bytes written to the split so far; the result is (split contents, unread rest).
  \<open>fputs\<close> writes the buffer up to its first NUL, and \<open>strlen\<close> counts the same bytes.
\<close>

lemma fgets_chunk_length:
  "length (snd (fgets_chunk k inp)) \<le> length inp"
  by (induction k inp rule: fgets_chunk.induct) (auto split: prod.splits)

lemma fgets_chunk_shorter:
  "inp \<noteq> [] \<Longrightarrow> 0 < k \<Longrightarrow> length (snd (fgets_chunk k inp)) < length inp"
proof (cases k)
  case 0
  assume "0 < k" with 0 show ?thesis by simp
next
  case (Suc j)
  assume "inp \<noteq> []"
  then obtain c cs where inp: "inp = c # cs" by (cases inp) auto
  have "length (snd (fgets_chunk j cs)) \<le> length cs" by (rule fgets_chunk_length)
  with Suc inp show ?thesis by (auto split: prod.splits)
qed

function copy_records :: "nat \<Rightarrow> nat \<Rightarrow> string \<Rightarrow> string \<Rightarrow> string \<times> string" where
  "copy_records split_size bytes_read inp out =
     (if bytes_read < split_size then
        (case fgets 1024 inp of
           None \<Rightarrow> (out, inp)
         | Some (buffer, rest) \<Rightarrow>
             copy_records split_size (bytes_read + strlen buffer) rest (out @ cstr buffer))
      else (out, inp))"
  by pat_completeness auto
termination
proof (relation "measure (\<lambda>(split_size, bytes_read, inp, out). length inp)")
  show "wf (measure (\<lambda>(split_size, bytes_read, inp, out). length inp))" by simp
next
  fix split_size bytes_read :: nat and inp out :: string and x2 :: "string \<times> string"
    and buffer rest :: string
  assume "fgets 1024 inp = Some x2" and "(buffer, rest) = x2"
  then have ne: "inp \<noteq> []" and r: "rest = snd (fgets_chunk 1023 inp)"
    by (auto simp: fgets_def split: if_splits)
  from fgets_chunk_shorter [OF ne, of 1023] r
  show "((split_size, bytes_read + strlen buffer, rest, out @ cstr buffer),
         (split_size, bytes_read, inp, out))
        \<in> measure (\<lambda>(split_size, bytes_read, inp, out). length inp)"
    by simp
qed

declare copy_records.simps [simp del]

text \<open>
  The outer loop \<^verbatim>\<open>for (i = 0; i < total_splits; i++)\<close>, as the list of the contents
  written to \<open>split-0\<close>, \<open>split-1\<close>, ...: every split starts with \<open>bytes_read = 0\<close> and
  reads on from where the previous one stopped (the input stream is shared). \<open>k\<close> counts
  the splits still to be written.
\<close>

fun split_loop :: "nat \<Rightarrow> nat \<Rightarrow> string \<Rightarrow> string list" where
  "split_loop 0 split_size inp = []"
| "split_loop (Suc k) split_size inp =
     (case copy_records split_size 0 inp [] of
        (out, rest) \<Rightarrow> out # split_loop k split_size rest)"

text \<open>
  The position of the shared input stream after the first \<open>k\<close> rounds of the outer
  loop, as the part of the input that is still unread then: each round leaves the stream
  where its copying loop stopped.
\<close>

fun unread_after :: "nat \<Rightarrow> nat \<Rightarrow> string \<Rightarrow> string" where
  "unread_after 0 split_size inp = inp"
| "unread_after (Suc k) split_size inp =
     (case copy_records split_size 0 inp [] of
        (out, rest) \<Rightarrow> unread_after k split_size rest)"

text \<open>
  \<^verbatim>\<open>long split_size = input_file_size / total_splits;\<close> The split count is the
  positive integer of the job specification; with \<open>total_splits = 0\<close> the C division
  faults, which is the \<open>None\<close> of the model. Sizes are C \<open>long\<close>s; a file is shorter than
  \<open>2^63\<close> bytes, so they are natural numbers here.
\<close>

definition split_size_of :: "string \<Rightarrow> nat \<Rightarrow> nat" where
  "split_size_of inp total_splits = length inp div total_splits"

definition partition_input :: "string \<Rightarrow> nat \<Rightarrow> string list option" where
  "partition_input inp total_splits =
     (if total_splits = 0 then None
      else Some (split_loop total_splits (split_size_of inp total_splits) inp))"

section \<open>The user functions (usr_functions.c)\<close>

text \<open>
  A map function gets \<open>split->usr_data\<close> (\<open>None\<close> for a NULL pointer) and the contents of
  the file behind \<open>split->fd\<close>, read from its start; a reduce function gets the contents
  of the intermediate files behind \<open>p_fd_in[0..fd_in_num-1]\<close>, each read from its start
  (after \<open>lseek(fd, 0, SEEK_SET)\<close>). The result is the return value and the bytes written
  to \<open>fd_out\<close>; \<open>None\<close> means that the function does not return. The file descriptors
  are valid whenever \<open>mapreduce\<close> calls these functions (it checks every \<open>open\<close>), so the
  branches for an invalid descriptor are not part of the model.
\<close>

subsection \<open>Letter counter\<close>

text \<open>
  The counters are C \<open>int\<close>s of 32 bits. An addition that leaves the range is not
  defined by C; the compiled program wraps around (two's complement), and so does the
  model: \<open>int32 v\<close> is the \<open>int\<close> that holds the low 32 bits of \<open>v\<close>.
\<close>

definition int32 :: "int \<Rightarrow> int" where
  "int32 v = (v + 2 ^ 31) mod 2 ^ 32 - 2 ^ 31"

text \<open>
  \<open>letter_frequencies\<close> is an array of 26 such counters. The body of the inner \<open>for\<close>
  loop for one byte:
\<close>

definition count_letter :: "char \<Rightarrow> int list \<Rightarrow> int list" where
  "count_letter c letter_frequencies =
     (let n = (of_char c :: nat) in
      if 65 \<le> n \<and> n \<le> 90 then
        letter_frequencies[n - 65 := int32 (letter_frequencies ! (n - 65) + 1)]
      else if 97 \<le> n \<and> n \<le> 122 then
        letter_frequencies[n - 97 := int32 (letter_frequencies ! (n - 97) + 1)]
      else letter_frequencies)"

text \<open>
  \<^verbatim>\<open>snprintf(output_line, sizeof(output_line), "%c %d\n", 'A' + letter_idx, n)\<close> with
  \<open>char output_line[16]\<close>, and the loop that writes one such line for every positive
  count (used by the map and by the reduce function). The line of an \<open>int\<close> count has
  at most 13 bytes, so it always fits the buffer.
\<close>

definition letter_line :: "nat \<Rightarrow> int \<Rightarrow> string" where
  "letter_line letter_idx n =
     snprintf 16 (char_of (65 + letter_idx) # CHR '' '' # print_int n @ [newline])"

definition write_counts :: "int list \<Rightarrow> string" where
  "write_counts counts =
     concat (map (\<lambda>letter_idx.
        if 0 < counts ! letter_idx then letter_line letter_idx (counts ! letter_idx) else [])
       [0..<26])"

definition letter_counter_map :: "string option \<Rightarrow> string \<Rightarrow> (int \<times> string) option" where
  "letter_counter_map usr_data split =
     Some (0, write_counts (read_loop 1024 (fold count_letter) split (replicate 26 0)))"

text \<open>
  The reduce function reads 255 bytes at a time into \<open>read_buffer\<close>, puts a NUL after
  them and cuts the buffer into lines with \<open>strtok(read_buffer, "\n")\<close>: the tokens are
  the non-empty runs of bytes other than newline. Each line is parsed by
  \<^verbatim>\<open>sscanf(line, "%c %d", &letter, &count)\<close>: \<open>%c\<close> takes one byte, \<open>%d\<close> skips white
  space and reads an optional sign and decimal digits. A number that does not fit an
  \<open>int\<close> is not defined by C; the C library converts the digits with \<open>strtol\<close>, which
  stops at the ends of the range of a 64-bit \<open>long\<close>, and stores the low 32 bits of
  the result, and so does the model.
\<close>

definition clamp_long :: "int \<Rightarrow> int" where
  "clamp_long v = max (- (2 ^ 63)) (min (2 ^ 63 - 1) v)"

definition isspace :: "char \<Rightarrow> bool" where
  "isspace c \<longleftrightarrow> c \<in> set [CHR '' '', CHR 0x09, CHR 0x0A, CHR 0x0B, CHR 0x0C, CHR 0x0D]"

definition isdigit :: "char \<Rightarrow> bool" where
  "isdigit c \<longleftrightarrow> 48 \<le> (of_char c :: nat) \<and> (of_char c :: nat) \<le> 57"

definition digits_value :: "string \<Rightarrow> nat" where
  "digits_value ds = foldl (\<lambda>v c. 10 * v + (of_char c - 48)) 0 ds"

definition scan_int :: "string \<Rightarrow> int option" where
  "scan_int s =
     (let t = dropWhile isspace s;
          negative = (t \<noteq> [] \<and> hd t = CHR ''-'');
          u = (if t \<noteq> [] \<and> (hd t = CHR ''-'' \<or> hd t = CHR ''+'') then tl t else t);
          ds = takeWhile isdigit u
      in if ds = [] then None
         else Some (int32 (clamp_long
                (if negative then - int (digits_value ds) else int (digits_value ds)))))"

text \<open>\<open>sscanf_c_d line = Some (letter, count)\<close> when \<open>sscanf\<close> returns 2.\<close>

definition sscanf_c_d :: "string \<Rightarrow> (char \<times> int) option" where
  "sscanf_c_d line =
     (case line of [] \<Rightarrow> None | letter # rest \<Rightarrow> map_option (Pair letter) (scan_int rest))"

function strtok_all :: "string \<Rightarrow> string list" where
  "strtok_all s =
     (let t = dropWhile (\<lambda>c. c = newline) s in
      if t = [] then []
      else takeWhile (\<lambda>c. c \<noteq> newline) t
             # strtok_all (drop 1 (dropWhile (\<lambda>c. c \<noteq> newline) t)))"
  by pat_completeness auto
termination
proof (relation "measure length")
  show "wf (measure length)" by simp
next
  fix s t :: string
  assume t: "t = dropWhile (\<lambda>c. c = newline) s" and ne: "t \<noteq> []"
  have "length (dropWhile (\<lambda>c. c \<noteq> newline) t) \<le> length t" by (rule length_dropWhile_le)
  moreover have "length t \<le> length s" unfolding t by (rule length_dropWhile_le)
  moreover from ne have "0 < length t" by simp
  ultimately have "length (dropWhile (\<lambda>c. c \<noteq> newline) t) - 1 < length s" by arith
  then show "(drop 1 (dropWhile (\<lambda>c. c \<noteq> newline) t), s) \<in> measure length"
    by simp
qed

declare strtok_all.simps [simp del]

definition add_line :: "string \<Rightarrow> int list \<Rightarrow> int list" where
  "add_line line aggregated_counts =
     (case sscanf_c_d line of
        None \<Rightarrow> aggregated_counts
      | Some (letter, count) \<Rightarrow>
          if 65 \<le> (of_char letter :: nat) \<and> (of_char letter :: nat) \<le> 90 then
            aggregated_counts[of_char letter - 65 :=
              int32 (aggregated_counts ! (of_char letter - 65) + count)]
          else aggregated_counts)"

definition reduce_buffer :: "string \<Rightarrow> int list \<Rightarrow> int list" where
  "reduce_buffer read_buffer aggregated_counts =
     fold add_line (strtok_all (cstr read_buffer)) aggregated_counts"

definition letter_counter_reduce :: "string list \<Rightarrow> (int \<times> string) option" where
  "letter_counter_reduce files =
     (if files = [] then Some (- 1, [])
      else Some (0, write_counts
             (fold (read_loop 255 reduce_buffer) files (replicate 26 0))))"

subsection \<open>Word finder\<close>

text \<open>
  \<open>strstr haystack needle\<close> is the offset of the first occurrence of \<open>needle\<close> in
  \<open>haystack\<close> (both C strings), \<open>None\<close> for NULL.
\<close>

fun strstr :: "string \<Rightarrow> string \<Rightarrow> nat option" where
  "strstr [] needle = (if needle = [] then Some 0 else None)"
| "strstr (c # cs) needle =
     (if prefix needle (c # cs) then Some 0 else map_option Suc (strstr cs needle))"

text \<open>
  The test on the byte after a match, \<^verbatim>\<open>*(search_ptr + target_word_len)\<close>: \<open>after\<close> is
  the line from that byte on, and the empty list stands for the terminating NUL.
\<close>

definition word_end :: "string \<Rightarrow> bool" where
  "word_end after =
     (case after of [] \<Rightarrow> True
      | c # _ \<Rightarrow> c = CHR '','' \<or> c = CHR ''.'' \<or> c = CHR '' '')"

text \<open>
  The search loop (lines 171-187) on the C string \<open>line\<close> in \<open>current_line\<close>; \<open>p\<close> is
  \<open>search_ptr - current_line\<close>. \<open>Some True\<close>: a match at a word boundary was found (the
  line is written and the loop left by \<open>break\<close>); \<open>Some False\<close>: \<open>strstr\<close> returned NULL.
  The loop is not bounded by the code: with an empty target word \<open>search_ptr\<close> does not
  advance, so the function is defined as a partial one and \<open>None\<close> is a loop that never
  ends.
\<close>

partial_function (option) word_search :: "string \<Rightarrow> string \<Rightarrow> nat \<Rightarrow> bool option" where
  "word_search line target_word p =
     (case strstr (drop p line) target_word of
        None \<Rightarrow> Some False
      | Some k \<Rightarrow>
          if (p + k = 0 \<or> line ! (p + k - 1) = CHR '' '')
             \<and> word_end (drop (p + k + length target_word) line)
          then Some True
          else word_search line target_word (p + k + length target_word))"

declare word_search.simps [code]

text \<open>
  The variables of \<open>word_finder_map\<close>: \<open>current_line\<close> holds the bytes
  \<open>current_line[0..current_line_len-1]\<close> of the line being built, \<open>original_line_copy\<close>
  all 1024 bytes of that buffer (it is written by \<open>strcpy\<close> only, so bytes of earlier
  lines stay in it), \<open>written\<close> the bytes written to \<open>fd_out\<close> so far.
\<close>

record wf_state =
  current_line :: string
  original_line_copy :: string
  written :: string

definition strcpy :: "string \<Rightarrow> string \<Rightarrow> string" where
  "strcpy dst src = src @ NUL # drop (length src + 1) dst"

text \<open>
  Lines 168-188, run at a newline or when \<open>current_line\<close> is full: terminate the line,
  copy it, search it, write \<open>current_line_len\<close> bytes of the copy and a newline if the
  word was found, and start a new line.
\<close>

definition end_of_line :: "string \<Rightarrow> wf_state \<Rightarrow> wf_state option" where
  "end_of_line target_word s =
     (let line = cstr (current_line s);
          copy = strcpy (original_line_copy s) line
      in case word_search line target_word 0 of
           None \<Rightarrow> None
         | Some found \<Rightarrow>
             Some \<lparr>current_line = [], original_line_copy = copy,
                   written = written s @
                     (if found then take (length (current_line s)) copy @ [newline] else [])\<rparr>)"

text \<open>The body of the inner \<open>for\<close> loop for one byte (lines 167-191).\<close>

definition wf_byte :: "string \<Rightarrow> char \<Rightarrow> wf_state \<Rightarrow> wf_state option" where
  "wf_byte target_word c s =
     (if c = newline \<or> length (current_line s) = 1023 then end_of_line target_word s
      else Some (s\<lparr>current_line := current_line s @ [c]\<rparr>))"

fun wf_buffer :: "string \<Rightarrow> string \<Rightarrow> wf_state option \<Rightarrow> wf_state option" where
  "wf_buffer target_word [] s = s"
| "wf_buffer target_word (c # cs) s =
     (case s of None \<Rightarrow> None
      | Some st \<Rightarrow> wf_buffer target_word cs (wf_byte target_word c st))"

text \<open>
  \<open>stack\<close> is what the 1024 bytes of \<open>original_line_copy\<close> hold when the function starts
  (the array is not initialised). The target word is the C string at \<open>split->usr_data\<close>.
\<close>

definition word_finder_map :: "string \<Rightarrow> string option \<Rightarrow> string \<Rightarrow> (int \<times> string) option" where
  "word_finder_map stack usr_data split =
     (case usr_data of
        None \<Rightarrow> Some (- 1, [])
      | Some word \<Rightarrow>
          (case read_loop 1024 (wf_buffer (cstr word)) split
                  (Some \<lparr>current_line = [], original_line_copy = stack, written = []\<rparr>) of
             None \<Rightarrow> None
           | Some s \<Rightarrow> Some (0, written s)))"

definition word_finder_reduce :: "string list \<Rightarrow> (int \<times> string) option" where
  "word_finder_reduce files =
     (if files = [] then Some (- 1, [])
      else Some (0, fold (read_loop 1024 (\<lambda>read_buffer out. out @ read_buffer)) files []))"

section \<open>Files, the job specification and the worker processes\<close>

text \<open>
  Modelled from the spec: \<open>common.h\<close>, which defines the status codes \<open>SUCCESS\<close> and
  \<open>ERROR\<close> and the macros \<open>EXIT_ERROR\<close> and \<open>_EXIT_ERROR\<close>, is not among the sources.
  \<open>SUCCESS\<close> is 0 and \<open>ERROR\<close> is -1, the values the user functions document
  ("0 on success, -1 on error"); \<open>EXIT_ERROR(ERROR, ...)\<close> and \<open>_EXIT_ERROR(ERROR, ...)\<close>
  print the diagnostic and end the process with status \<open>ERROR\<close> ("terminate the whole job
  process immediately with a non-zero status and a diagnostic message").
\<close>

definition SUCCESS :: int where
  "SUCCESS = 0"

definition ERROR :: int where
  "ERROR = - 1"

text \<open>\<open>WEXITSTATUS\<close> of a process that ended with \<open>_exit(code)\<close>: the low 8 bits.\<close>

definition exit_status :: "int \<Rightarrow> nat" where
  "exit_status code = nat (code mod 256)"

text \<open>
  The working directory: a map from file names to contents. Opening an existing file for
  reading, creating a file and \<open>malloc\<close> always succeed in the model.
\<close>

type_synonym files = "string \<rightharpoonup> string"

text \<open>
  \<^verbatim>\<open>snprintf(split_filenames[i], 20, "split-%d", i)\<close>,
  \<^verbatim>\<open>snprintf(intermediate_filenames[i], 20, "mr-%d.itm", i)\<close> and \<^verbatim>\<open>"mr.rst"\<close>. The index
  is a C \<open>int\<close>, so the model is the program for \<open>i < 2^31\<close>.
\<close>

definition split_name :: "nat \<Rightarrow> string" where
  "split_name i = snprintf 20 (''split-'' @ dec i)"

definition itm_name :: "nat \<Rightarrow> string" where
  "itm_name i = snprintf 20 (''mr-'' @ dec i @ ''.itm'')"

definition result_name :: string where
  "result_name = ''mr.rst''"

text \<open>
  \<open>MAPREDUCE_SPEC\<close>, with the user functions as functions on file contents (see the
  section on the user functions).
\<close>

record mapreduce_spec =
  split_num :: nat
  input_data_filepath :: string
  map_func :: "string option \<Rightarrow> string \<Rightarrow> (int \<times> string) option"
  reduce_func :: "string list \<Rightarrow> (int \<times> string) option"
  usr_data :: "string option"

datatype setup_error = Cannot_open_input | Division_by_zero

text \<open>
  Phase 1 on the working directory (lines 26-72): the input is opened (a fatal error if
  that fails), its size is taken and the splits are written to \<open>split-0\<close>, \<open>split-1\<close>,
  ... in this order. The input is read as it was when the job started: a job whose input
  path is one of its own split names is outside the model. Phase 1 creates no other
  file: lines 69-70 only build the names of the intermediate files.
\<close>

fun write_splits :: "nat \<Rightarrow> string list \<Rightarrow> files \<Rightarrow> files" where
  "write_splits i [] fs = fs"
| "write_splits i (s # ss) fs = write_splits (Suc i) ss (fs(split_name i \<mapsto> s))"

definition split_phase :: "mapreduce_spec \<Rightarrow> files \<Rightarrow> setup_error + files" where
  "split_phase sp fs =
     (case fs (input_data_filepath sp) of
        None \<Rightarrow> Inl Cannot_open_input
      | Some inp \<Rightarrow>
          (case partition_input inp (split_num sp) of
             None \<Rightarrow> Inl Division_by_zero
           | Some splits \<Rightarrow> Inr (write_splits 0 splits fs)))"

text \<open>
  The child process of the \<open>i\<close>-th \<open>fork\<close> of phase 2 (lines 82-106): it opens
  \<open>split-i\<close>, creates or truncates \<open>mr-i.itm\<close>, runs the map function and ends with
  \<open>_exit\<close>. The result is its exit code and the working directory it leaves; \<open>None\<close>
  when the map function does not return.
\<close>

definition map_worker :: "mapreduce_spec \<Rightarrow> nat \<Rightarrow> files \<Rightarrow> (int \<times> files) option" where
  "map_worker sp i fs =
     (case fs (split_name i) of
        None \<Rightarrow> Some (ERROR, fs)
      | Some split \<Rightarrow>
          (case map_func sp (usr_data sp) split of
             None \<Rightarrow> None
           | Some (map_status, out) \<Rightarrow>
               Some (if map_status \<noteq> SUCCESS then ERROR else SUCCESS,
                     fs(itm_name i \<mapsto> out))))"

text \<open>
  The child process of the \<open>fork\<close> of phase 4 (lines 126-156): it opens every
  intermediate file (and ends with \<open>ERROR\<close> if one is missing), creates or truncates
  \<open>mr.rst\<close> and runs the reduce function.
\<close>

definition reduce_worker :: "mapreduce_spec \<Rightarrow> files \<Rightarrow> (int \<times> files) option" where
  "reduce_worker sp fs =
     (case those (map (\<lambda>i. fs (itm_name i)) [0..<split_num sp]) of
        None \<Rightarrow> Some (ERROR, fs)
      | Some intermediate \<Rightarrow>
          (case reduce_func sp intermediate of
             None \<Rightarrow> None
           | Some (reduce_status, out) \<Rightarrow>
               Some (if reduce_status \<noteq> SUCCESS then ERROR else SUCCESS,
                     fs(result_name \<mapsto> out))))"

text \<open>
  A run of the whole job in which every \<open>fork\<close> succeeds and no worker is killed: the
  splits are written, every map worker runs to its exit, then the reduce worker. The
  map workers run concurrently, but worker \<open>i\<close> reads only \<open>split-i\<close> and writes only
  \<open>mr-i.itm\<close>, so the files they leave do not depend on the interleaving and the model
  runs them in index order. The result is the exit codes of the workers and the working
  directory after the job.
\<close>

fun run_map_workers ::
  "mapreduce_spec \<Rightarrow> nat list \<Rightarrow> files \<Rightarrow> (int list \<times> files) option" where
  "run_map_workers sp [] fs = Some ([], fs)"
| "run_map_workers sp (i # is) fs =
     (case map_worker sp i fs of
        None \<Rightarrow> None
      | Some (code, fs') \<Rightarrow>
          (case run_map_workers sp is fs' of
             None \<Rightarrow> None
           | Some (codes, fs'') \<Rightarrow> Some (code # codes, fs'')))"

datatype job_run =
    Setup_failed setup_error
  | Worker_never_exits
  | Completed "int list" int files

definition run_job :: "mapreduce_spec \<Rightarrow> files \<Rightarrow> job_run" where
  "run_job sp fs =
     (case split_phase sp fs of
        Inl e \<Rightarrow> Setup_failed e
      | Inr fs1 \<Rightarrow>
          (case run_map_workers sp [0..<split_num sp] fs1 of
             None \<Rightarrow> Worker_never_exits
           | Some (map_codes, fs2) \<Rightarrow>
               (case reduce_worker sp fs2 of
                  None \<Rightarrow> Worker_never_exits
                | Some (reduce_code, fs3) \<Rightarrow> Completed map_codes reduce_code fs3)))"

section \<open>The coordinator: phases 2 to 4 of \<open>mapreduce\<close> in the parent process\<close>

text \<open>
  What the parent does depends on the operating system only through what \<open>fork\<close> and
  \<open>waitpid\<close> return, so these are the inputs of the model. \<open>fork\<close> in the parent fails
  (a negative value) or returns the child's process id; the branch for the value 0 is
  the child and is modelled by \<open>map_worker\<close> and \<open>reduce_worker\<close>. \<open>waitpid\<close> stores the
  status of a terminated child: it exited with a status (\<open>WIFEXITED\<close>, \<open>WEXITSTATUS\<close>)
  or was killed by a signal; \<open>None\<close> stands for a child that never terminates, on which
  \<open>waitpid\<close> never returns. \<open>waitpid\<close> itself is taken to succeed (the code does not
  check its return value), and so is \<open>malloc\<close>.
\<close>

datatype fork_result = Fork_failed | Forked int

datatype wstatus = Exited nat | Signaled nat

record environment =
  fork_map :: "nat \<Rightarrow> fork_result"
  wait_map :: "nat \<Rightarrow> wstatus option"
  fork_reduce :: fork_result
  wait_reduce :: "wstatus option"

text \<open>
  \<^verbatim>\<open>WIFEXITED(worker_exit_status) && WEXITSTATUS(worker_exit_status) != SUCCESS\<close>
\<close>

definition reports_failure :: "wstatus \<Rightarrow> bool" where
  "reports_failure st = (case st of Exited c \<Rightarrow> int c \<noteq> SUCCESS | Signaled sg \<Rightarrow> False)"

text \<open>
  What the parent does, in order: \<open>Spawn_map i pid\<close> is the \<open>i\<close>-th \<open>fork\<close> of phase 2
  returning \<open>pid\<close>, \<open>Wait_map i\<close> the return of \<open>waitpid(map_worker_pids[i], ...)\<close>,
  \<open>Map_failed i\<close> the line \<^verbatim>\<open>"Error: Map worker %d failed.\n"\<close> on \<open>stderr\<close>,
  \<open>Reduce_failed\<close> the line \<^verbatim>\<open>"Error: Reduce worker execution failed.\n"\<close>, and
  \<open>Fork_map_failed i\<close> and \<open>Fork_reduce_failed\<close> the diagnostics of \<open>EXIT_ERROR\<close> for a
  failed \<open>fork\<close>.
\<close>

datatype event =
    Spawn_map nat int
  | Wait_map nat
  | Map_failed nat
  | Spawn_reduce int
  | Wait_reduce
  | Reduce_failed
  | Fork_map_failed nat
  | Fork_reduce_failed

text \<open>
  The state of the parent: the events so far and the fields of \<open>MAPREDUCE_RESULT\<close>.
  \<open>map_worker_pid\<close> holds the entries \<open>result->map_worker_pid[0..i-1]\<close> written so far
  (the caller provides the array); \<open>processing_time\<close> is not modelled.
\<close>

record coordinator_state =
  trace :: "event list"
  map_worker_pid :: "int list"
  reduce_worker_pid :: "int option"

datatype outcome = Returned | Process_exit int | Blocked

text \<open>
  Phase 2 (lines 80-113) and phase 3 (lines 116-121), each a loop over the indices
  \<open>0..total_splits-1\<close>; \<open>Inl\<close> is the state in which the run ends inside the loop
  (\<open>EXIT_ERROR\<close> after a failed \<open>fork\<close>, or a \<open>waitpid\<close> that never returns).
\<close>

fun fork_maps ::
  "(nat \<Rightarrow> fork_result) \<Rightarrow> nat list \<Rightarrow> coordinator_state
     \<Rightarrow> coordinator_state + coordinator_state" where
  "fork_maps fk [] s = Inr s"
| "fork_maps fk (i # is) s =
     (case fk i of
        Fork_failed \<Rightarrow> Inl (s\<lparr>trace := trace s @ [Fork_map_failed i]\<rparr>)
      | Forked pid \<Rightarrow>
          fork_maps fk is
            (s\<lparr>trace := trace s @ [Spawn_map i pid],
               map_worker_pid := map_worker_pid s @ [pid]\<rparr>))"

fun wait_maps ::
  "(nat \<Rightarrow> wstatus option) \<Rightarrow> nat list \<Rightarrow> coordinator_state
     \<Rightarrow> coordinator_state + coordinator_state" where
  "wait_maps ws [] s = Inr s"
| "wait_maps ws (i # is) s =
     (case ws i of
        None \<Rightarrow> Inl s
      | Some worker_exit_status \<Rightarrow>
          wait_maps ws is
            (s\<lparr>trace := trace s @ Wait_map i #
                 (if reports_failure worker_exit_status then [Map_failed i] else [])\<rparr>))"

text \<open>Lines 80-167: phases 2 and 3, then the \<open>fork\<close> of the reduce worker and its \<open>waitpid\<close>.\<close>

definition coordinator :: "environment \<Rightarrow> nat \<Rightarrow> outcome \<times> coordinator_state" where
  "coordinator e total_splits =
     (case fork_maps (fork_map e) [0..<total_splits]
             \<lparr>trace = [], map_worker_pid = [], reduce_worker_pid = None\<rparr> of
        Inl s \<Rightarrow> (Process_exit ERROR, s)
      | Inr s1 \<Rightarrow>
          (case wait_maps (wait_map e) [0..<total_splits] s1 of
             Inl s \<Rightarrow> (Blocked, s)
           | Inr s2 \<Rightarrow>
               (case fork_reduce e of
                  Fork_failed \<Rightarrow>
                    (Process_exit ERROR, s2\<lparr>trace := trace s2 @ [Fork_reduce_failed]\<rparr>)
                | Forked pid \<Rightarrow>
                    (case wait_reduce e of
                       None \<Rightarrow>
                         (Blocked, s2\<lparr>trace := trace s2 @ [Spawn_reduce pid],
                                      reduce_worker_pid := Some pid\<rparr>)
                     | Some worker_exit_status \<Rightarrow>
                         (Returned,
                          s2\<lparr>trace := trace s2 @ Spawn_reduce pid # Wait_reduce #
                                (if reports_failure worker_exit_status
                                 then [Reduce_failed] else []),
                              reduce_worker_pid := Some pid\<rparr>)))))"

section \<open>Records of a file\<close>

text \<open>
  A record is a line: the bytes up to and including the next newline, or up to the end of
  the file for a last line with no newline. \<open>records inp\<close> cuts a file into its records,
  so that \<open>concat (records inp) = inp\<close>.
\<close>

fun first_record :: "string \<Rightarrow> string \<times> string" where
  "first_record [] = ([], [])"
| "first_record (c # cs) =
     (if c = newline then ([c], cs)
      else (case first_record cs of (b, r) \<Rightarrow> (c # b, r)))"

lemma first_record_append: "fst (first_record inp) @ snd (first_record inp) = inp"
  by (induction inp) (auto split: prod.splits)

lemma first_record_nonempty: "inp \<noteq> [] \<Longrightarrow> fst (first_record inp) \<noteq> []"
  by (cases inp) (auto split: prod.splits)

lemma first_record_rest_shorter:
  "inp \<noteq> [] \<Longrightarrow> length (snd (first_record inp)) < length inp"
proof -
  assume ne: "inp \<noteq> []"
  have "length (fst (first_record inp)) + length (snd (first_record inp)) = length inp"
    using first_record_append [of inp] by (metis length_append)
  moreover have "0 < length (fst (first_record inp))"
    using first_record_nonempty [OF ne] by simp
  ultimately show ?thesis by linarith
qed

function records :: "string \<Rightarrow> string list" where
  "records inp =
     (if inp = [] then []
      else fst (first_record inp) # records (snd (first_record inp)))"
  by pat_completeness auto
termination
  by (relation "measure length") (auto simp: first_record_rest_shorter)

declare records.simps [simp del]

lemma concat_records: "concat (records inp) = inp"
proof (induction inp rule: records.induct)
  case (1 inp)
  show ?case
  proof (cases "inp = []")
    case True
    then show ?thesis by (simp add: records.simps)
  next
    case False
    with 1 have "concat (records (snd (first_record inp))) = snd (first_record inp)" by simp
    with False show ?thesis
      by (subst records.simps) (simp add: first_record_append)
  qed
qed

text \<open>
  The inputs on which the partitioner copies record by record: no NUL byte (the C string
  functions stop at one) and no record longer than the 1023 bytes one \<open>fgets\<close> call into
  \<open>char buffer[1024]\<close> can return.
\<close>

definition text_input :: "string \<Rightarrow> bool" where
  "text_input inp \<longleftrightarrow> NUL \<notin> set inp \<and> list_all (\<lambda>r. length r \<le> 1023) (records inp)"

section \<open>Reading a trace of the coordinator\<close>

text \<open>
  The indices of the map workers waited for, and of those spawned, in the order of the
  trace; and the test for the spawning of the reduce worker.
\<close>

fun waited :: "event list \<Rightarrow> nat list" where
  "waited [] = []"
| "waited (Wait_map i # es) = i # waited es"
| "waited (ev # es) = waited es"

fun spawned :: "event list \<Rightarrow> nat list" where
  "spawned [] = []"
| "spawned (Spawn_map i pid # es) = i # spawned es"
| "spawned (ev # es) = spawned es"

fun is_spawn_reduce :: "event \<Rightarrow> bool" where
  "is_spawn_reduce (Spawn_reduce pid) = True"
| "is_spawn_reduce ev = False"

text \<open>Environments for the examples: two map workers with process ids 100 and 101.\<close>

definition example_env :: environment where
  "example_env =
     \<lparr>fork_map = (\<lambda>i. Forked (100 + int i)),
      wait_map = (\<lambda>i. if i = 0 then Some (Exited 1) else Some (Signaled 9)),
      fork_reduce = Forked 200,
      wait_reduce = Some (Signaled 15)\<rparr>"

definition fork_failure_env :: environment where
  "fork_failure_env =
     \<lparr>fork_map = (\<lambda>i. if i = 1 then Fork_failed else Forked (100 + int i)),
      wait_map = (\<lambda>i. Some (Exited 0)),
      fork_reduce = Forked 200,
      wait_reduce = Some (Exited 0)\<rparr>"

definition reduce_fork_failure_env :: environment where
  "reduce_fork_failure_env =
     \<lparr>fork_map = (\<lambda>i. Forked (100 + int i)),
      wait_map = (\<lambda>i. Some (Exited 0)),
      fork_reduce = Fork_failed,
      wait_reduce = None\<rparr>"

text \<open>
  The jobs of the two end-to-end examples, each in a working directory that holds only
  its input file; \<open>letter_splits\<close> is the directory of the letter counting job after
  phase 1. The word finder looks for \<open>cat\<close>.
\<close>

definition letter_job :: mapreduce_spec where
  "letter_job =
     \<lparr>split_num = 2, input_data_filepath = ''input.txt'',
      map_func = letter_counter_map, reduce_func = letter_counter_reduce,
      usr_data = None\<rparr>"

definition letter_input :: files where
  "letter_input = [''input.txt'' \<mapsto> ''AAAB'' @ [newline] @ ''BBCC'' @ [newline]]"

definition letter_splits :: files where
  "letter_splits =
     letter_input(''split-0'' \<mapsto> ''AAAB'' @ [newline], ''split-1'' \<mapsto> ''BBCC'' @ [newline])"

definition word_job :: "string \<Rightarrow> nat \<Rightarrow> mapreduce_spec" where
  "word_job stack n =
     \<lparr>split_num = n, input_data_filepath = ''input.txt'',
      map_func = word_finder_map stack, reduce_func = word_finder_reduce,
      usr_data = Some ''cat''\<rparr>"

definition word_input :: files where
  "word_input = [''input.txt'' \<mapsto> ''the cat sat'' @ [newline] @ ''concatenate'' @ [newline]]"

text \<open>
  The word-boundary rule in the words of the specification, to be compared with the
  search loop of the source (\<open>word_search\<close>): the word stands at position \<open>q\<close> of the
  line, the character before it is the start of the line or a space, and the character
  after it is the end of the line, a comma, a full stop or a space.
\<close>

definition whole_word_at :: "string \<Rightarrow> string \<Rightarrow> nat \<Rightarrow> bool" where
  "whole_word_at line word q \<longleftrightarrow>
     prefix word (drop q line) \<and>
     (q = 0 \<or> line ! (q - 1) = CHR '' '') \<and>
     (q + length word = length line \<or> line ! (q + length word) = CHR '','' \<or>
      line ! (q + length word) = CHR ''.'' \<or> line ! (q + length word) = CHR '' '')"
section \<open>The partitioner copies whole records\<close>

text \<open>
  Every record is non-empty, has no newline before its last byte, and ends with a
  newline unless it is the last record of the file.
\<close>

lemma first_record_shape:
  "inp \<noteq> [] \<Longrightarrow>
   newline \<notin> set (butlast (fst (first_record inp))) \<and>
   (last (fst (first_record inp)) = newline \<or> snd (first_record inp) = [])"
proof (induction inp)
  case Nil
  then show ?case by simp
next
  case (Cons c cs)
  show ?case
  proof (cases "cs = []")
    case True
    then show ?thesis by simp
  next
    case False
    with Cons.IH first_record_nonempty [OF False] show ?thesis
      by (auto split: prod.splits)
  qed
qed

lemma records_shape:
  "i < length (records inp) \<Longrightarrow>
   records inp ! i \<noteq> [] \<and> newline \<notin> set (butlast (records inp ! i)) \<and>
   (Suc i < length (records inp) \<longrightarrow> last (records inp ! i) = newline)"
proof (induction inp arbitrary: i rule: records.induct)
  case (1 inp)
  show ?case
  proof (cases "inp = []")
    case True
    with "1.prems" show ?thesis by (simp add: records.simps)
  next
    case False
    let ?r = "fst (first_record inp)" and ?t = "snd (first_record inp)"
    from False have rec: "records inp = ?r # records ?t" by (subst records.simps) simp
    show ?thesis
    proof (cases i)
      case 0
      have "Suc 0 < length (records inp) \<Longrightarrow> ?t \<noteq> []"
        using rec by (auto simp: records.simps [of "[]"])
      with 0 rec first_record_shape [OF False] first_record_nonempty [OF False]
      show ?thesis by auto
    next
      case (Suc j)
      with "1.prems" rec have "j < length (records ?t)" by simp
      from "1.IH" [OF False this] Suc rec show ?thesis by simp
    qed
  qed
qed

lemma fgets_chunk_first_record:
  "length (fst (first_record inp)) \<le> k \<Longrightarrow> fgets_chunk k inp = first_record inp"
proof (induction k inp rule: fgets_chunk.induct)
  case (1 inp)
  then show ?case using first_record_nonempty [of inp] by (cases "inp = []") auto
next
  case (2 k)
  then show ?case by simp
next
  case (3 k c cs)
  then show ?case by (auto split: prod.splits)
qed

lemma cstr_no_NUL: "NUL \<notin> set buf \<Longrightarrow> cstr buf = buf"
  by (auto simp: cstr_def)

lemma text_input_step:
  assumes "text_input inp" "inp \<noteq> []"
  shows "fgets 1024 inp = Some (first_record inp)"
    and "text_input (snd (first_record inp))"
    and "cstr (fst (first_record inp)) = fst (first_record inp)"
proof -
  from assms have rec: "records inp = fst (first_record inp) # records (snd (first_record inp))"
    by (subst records.simps) simp
  with assms have len: "length (fst (first_record inp)) \<le> 1023"
    and rest: "list_all (\<lambda>r. length r \<le> 1023) (records (snd (first_record inp)))"
    by (simp_all add: text_input_def)
  from len show "fgets 1024 inp = Some (first_record inp)"
    using assms(2) by (simp add: fgets_def fgets_chunk_first_record)
  have sets: "set (fst (first_record inp)) \<union> set (snd (first_record inp)) = set inp"
    using first_record_append [of inp] by (metis set_append)
  with assms(1) rest show "text_input (snd (first_record inp))"
    by (auto simp: text_input_def)
  from sets assms(1) show "cstr (fst (first_record inp)) = fst (first_record inp)"
    by (intro cstr_no_NUL) (auto simp: text_input_def)
qed

lemma copy_records_whole:
  "text_input inp \<Longrightarrow> copy_records sz b inp out = (out', rest) \<Longrightarrow>
   \<exists>rs. records inp = rs @ records rest \<and> out' = out @ concat rs \<and> text_input rest \<and>
        (sz \<le> b + length (concat rs) \<or> rest = [])"
proof (induction sz b inp out arbitrary: out' rest rule: copy_records.induct)
  case (1 sz b inp out)
  show ?case
  proof (cases "b < sz \<and> inp \<noteq> []")
    case False
    with "1.prems" have "out' = out" "rest = inp"
      by (auto simp: copy_records.simps [of sz b inp out] fgets_def split: if_splits)
    with False "1.prems" show ?thesis by (intro exI [of _ "[]"]) auto
  next
    case True
    let ?r = "fst (first_record inp)" and ?t = "snd (first_record inp)"
    from True "1.prems"(1) have fg: "fgets 1024 inp = Some (?r, ?t)"
      and ti: "text_input ?t" and cs: "cstr ?r = ?r"
      using text_input_step [of inp] by simp_all
    from True fg cs "1.prems"(2)
    have run: "copy_records sz (b + length ?r) ?t (out @ ?r) = (out', rest)"
      by (simp add: copy_records.simps [of sz b inp out] strlen_def split: prod.splits)
    from "1.IH" [of "(?r, ?t)" ?r ?t out' rest] True fg ti run cs
    obtain rs where rs: "records ?t = rs @ records rest" "out' = (out @ ?r) @ concat rs"
      "text_input rest" "sz \<le> (b + length ?r) + length (concat rs) \<or> rest = []"
      by (auto simp: strlen_def)
    from True have "records inp = ?r # records ?t" by (subst records.simps) simp
    with rs show ?thesis by (intro exI [of _ "?r # rs"]) auto
  qed
qed


lemma concat_concat: "concat (map concat xss) = concat (concat xss)"
  by (induction xss) auto

lemma split_loop_whole:
  "text_input inp \<Longrightarrow>
   \<exists>rss. length rss = k \<and> split_loop k sz inp = map concat rss \<and>
         prefix (concat rss) (records inp) \<and>
         (\<forall>i<k. sz \<le> length (concat (rss ! i)) \<or> concat (take (Suc i) rss) = records inp)"
proof (induction k arbitrary: inp)
  case 0
  then show ?case by simp
next
  case (Suc k)
  obtain out rest where cr: "copy_records sz 0 inp [] = (out, rest)"
    by (cases "copy_records sz 0 inp []") auto
  from copy_records_whole [OF Suc.prems cr]
  obtain rs where rs: "records inp = rs @ records rest" "out = concat rs" "text_input rest"
    "sz \<le> length (concat rs) \<or> rest = []"
    by auto
  from Suc.IH [OF rs(3)]
  obtain rss where rss: "length rss = k" "split_loop k sz rest = map concat rss"
    "prefix (concat rss) (records rest)"
    "\<forall>i<k. sz \<le> length (concat (rss ! i)) \<or> concat (take (Suc i) rss) = records rest"
    by auto
  have size: "sz \<le> length (concat ((rs # rss) ! i)) \<or>
              concat (take (Suc i) (rs # rss)) = records inp" if "i < Suc k" for i
  proof (cases i)
    case 0
    from rs(4) show ?thesis
    proof
      assume "sz \<le> length (concat rs)"
      with 0 show ?thesis by simp
    next
      assume "rest = []"
      then have "records rest = []" by (simp add: records.simps)
      with rs(1) 0 show ?thesis by simp
    qed
  next
    case (Suc j)
    with that rss(4) have "sz \<le> length (concat (rss ! j)) \<or>
        concat (take (Suc j) rss) = records rest"
      by simp
    with Suc rs(1) show ?thesis by auto
  qed
  show ?case
  proof (intro exI [of _ "rs # rss"] conjI allI impI)
    show "length (rs # rss) = Suc k" using rss(1) by simp
    show "split_loop (Suc k) sz inp = map concat (rs # rss)"
      using cr rs(2) rss(2) by simp
    show "prefix (concat (rs # rss)) (records inp)"
      using rs(1) rss(3) by simp
    show "sz \<le> length (concat ((rs # rss) ! i)) \<or>
          concat (take (Suc i) (rs # rss)) = records inp" if "i < Suc k" for i
      using size [OF that] .
  qed
qed

lemma fgets_chunk_Nil: "fgets_chunk k [] = ([], [])"
  by (cases k) auto

lemma fgets_chunk_Cons:
  "fgets_chunk k (c # cs) =
     (if k = 0 then ([], c # cs)
      else if c = newline then ([c], cs)
      else (case fgets_chunk (k - 1) cs of (b, r) \<Rightarrow> (c # b, r)))"
  by (cases k) auto

lemma split_loop_unfold:
  "split_loop k sz inp =
     (if k = 0 then []
      else (case copy_records sz 0 inp [] of (out, rest) \<Rightarrow> out # split_loop (k - 1) sz rest))"
  by (cases k) auto

lemma fgets_chunk_replicate:
  "c \<noteq> newline \<Longrightarrow> fgets_chunk k (replicate k c @ rest) = (replicate k c, rest)"
  by (induction k) auto

lemma fgets_full_buffer:
  "c \<noteq> newline \<Longrightarrow> fgets 1024 (replicate 1023 c @ rest) = Some (replicate 1023 c, rest)"
  using fgets_chunk_replicate [of c 1023 rest] by (simp add: fgets_def)

lemma cstr_replicate: "c \<noteq> NUL \<Longrightarrow> cstr (replicate n c @ [newline]) = replicate n c @ [newline]"
  by (rule cstr_no_NUL) (auto simp: NUL_def newline_def)

lemma cstr_replicate': "c \<noteq> NUL \<Longrightarrow> cstr (replicate n c) = replicate n c"
  by (rule cstr_no_NUL) (auto simp: NUL_def newline_def)


lemma text_input_example: "text_input (''AAAB'' @ [newline] @ ''BBCC'' @ [newline])"
  by code_simp

lemma partition_long_record:
  "partition_input (replicate 1023 (CHR ''a'') @ [newline]) 2
     = Some [replicate 1023 (CHR ''a''), [newline]]"
proof -
  have a: "CHR ''a'' \<noteq> newline" "CHR ''a'' \<noteq> NUL" by (simp_all add: newline_def NUL_def)
  have s0: "copy_records 512 0 (replicate 1023 (CHR ''a'') @ [newline]) []
              = (replicate 1023 (CHR ''a''), [newline])"
    by (simp add: copy_records.simps [of 512] fgets_full_buffer a cstr_replicate' strlen_def)
  have s1: "copy_records 512 0 [newline] [] = ([newline], [])"
    by (simp add: copy_records.simps [of 512] fgets_def fgets_chunk_Cons fgets_chunk_Nil
        cstr_def strlen_def NUL_def newline_def)
  show ?thesis
    by (simp add: partition_input_def split_size_of_def split_loop_unfold s0 s1)
qed


lemma partition_NUL_byte:
  "partition_input (''a'' @ [NUL] @ ''b'' @ [newline] @ ''c'' @ [newline]) 1
     = Some [''ac'' @ [newline]]"
  by code_simp

text \<open>
  With more splits than bytes the target size is 0, the copying loop is never entered
  and every split is empty.
\<close>

lemma copy_records_zero: "copy_records 0 b inp out = (out, inp)"
  by (simp add: copy_records.simps)

lemma split_loop_zero: "split_loop k 0 inp = replicate k []"
  by (induction k) (simp_all add: copy_records_zero)

lemma partition_more_splits_than_bytes:
  "length inp < N \<Longrightarrow> partition_input inp N = Some (replicate N [])"
  by (simp add: partition_input_def split_size_of_def split_loop_zero)

text \<open>
  What the copying loop guarantees for every input: it appends to the split, it stops
  only with the target reached or the input used up, and without NUL bytes what it
  appends is what it has read. So the splits of an input without NUL bytes are
  consecutive pieces of the input, whatever the length of its lines.
\<close>

lemma fgets_chunk_append: "fst (fgets_chunk k inp) @ snd (fgets_chunk k inp) = inp"
  by (induction k inp rule: fgets_chunk.induct) (auto split: prod.splits)

lemma copy_records_size:
  "copy_records sz b inp out = (out', rest) \<Longrightarrow>
   \<exists>w. out' = out @ w \<and> (sz \<le> b + length w \<or> rest = []) \<and>
       (NUL \<notin> set inp \<longrightarrow> inp = w @ rest)"
proof (induction sz b inp out arbitrary: out' rest rule: copy_records.induct)
  case (1 sz b inp out)
  show ?case
  proof (cases "b < sz \<and> inp \<noteq> []")
    case False
    with "1.prems" have "out' = out" "rest = inp"
      by (auto simp: copy_records.simps [of sz b inp out] fgets_def split: if_splits)
    with False show ?thesis by (intro exI [of _ "[]"]) auto
  next
    case True
    obtain buffer rest1 where ch: "fgets_chunk 1023 inp = (buffer, rest1)"
      by (cases "fgets_chunk 1023 inp") auto
    with True have fg: "fgets 1024 inp = Some (buffer, rest1)" by (simp add: fgets_def)
    from ch fgets_chunk_append [of 1023 inp] have inp: "inp = buffer @ rest1" by simp
    from True fg "1.prems"
    have run: "copy_records sz (b + strlen buffer) rest1 (out @ cstr buffer) = (out', rest)"
      by (simp add: copy_records.simps [of sz b inp out])
    from "1.IH" [OF _ fg refl run] True
    obtain w where w: "out' = (out @ cstr buffer) @ w"
      "sz \<le> (b + strlen buffer) + length w \<or> rest = []"
      "NUL \<notin> set rest1 \<longrightarrow> rest1 = w @ rest"
      by auto
    have "NUL \<notin> set inp \<longrightarrow> inp = (cstr buffer @ w) @ rest"
    proof
      assume n: "NUL \<notin> set inp"
      with inp have "cstr buffer = buffer" by (intro cstr_no_NUL) auto
      with n inp w(3) show "inp = (cstr buffer @ w) @ rest" by auto
    qed
    with w(1,2) show ?thesis
      by (intro exI [of _ "cstr buffer @ w"]) (auto simp: strlen_def)
  qed
qed

lemma length_split_loop: "length (split_loop k sz inp) = k"
  by (induction k arbitrary: inp) (auto split: prod.splits)

lemma split_loop_size:
  "i < k \<Longrightarrow> sz \<le> length (split_loop k sz inp ! i) \<or> unread_after (Suc i) sz inp = []"
proof (induction k arbitrary: inp i)
  case 0
  then show ?case by simp
next
  case (Suc k)
  obtain out rest where cr: "copy_records sz 0 inp [] = (out, rest)"
    by (cases "copy_records sz 0 inp []") auto
  from copy_records_size [OF cr] have first: "sz \<le> length out \<or> rest = []" by auto
  show ?case
  proof (cases i)
    case 0
    with cr first show ?thesis by simp
  next
    case (Suc j)
    with Suc.prems have "j < k" by simp
    from Suc.IH [OF this, of rest] cr Suc show ?thesis by simp
  qed
qed

lemma split_loop_unread:
  "NUL \<notin> set inp \<Longrightarrow> j \<le> k \<Longrightarrow>
   concat (take j (split_loop k sz inp)) @ unread_after j sz inp = inp"
proof (induction k arbitrary: inp j)
  case 0
  then show ?case by simp
next
  case (Suc k)
  obtain out rest where cr: "copy_records sz 0 inp [] = (out, rest)"
    by (cases "copy_records sz 0 inp []") auto
  from copy_records_size [OF cr] Suc.prems(1) have inp: "inp = out @ rest" by auto
  show ?case
  proof (cases j)
    case 0
    then show ?thesis by simp
  next
    case (Suc j')
    from inp Suc.prems(1) have "NUL \<notin> set rest" by (metis Un_iff set_append)
    moreover from Suc Suc.prems(2) have "j' \<le> k" by simp
    ultimately have "concat (take j' (split_loop k sz rest)) @ unread_after j' sz rest = rest"
      by (rule Suc.IH)
    with cr Suc inp show ?thesis by simp
  qed
qed

lemma partition_prefix:
  assumes "NUL \<notin> set inp" and "1 \<le> N"
  shows "\<exists>splits. partition_input inp N = Some splits \<and> length splits = N \<and>
           prefix (concat splits) inp"
proof -
  let ?splits = "split_loop N (split_size_of inp N) inp"
  from split_loop_unread [OF assms(1), of N N "split_size_of inp N"]
  have "concat ?splits @ unread_after N (split_size_of inp N) inp = inp"
    by (simp add: length_split_loop)
  then have "prefix (concat ?splits) inp" by (metis prefixI)
  with assms(2) show ?thesis by (simp add: partition_input_def length_split_loop)
qed

text \<open>
  For an input without NUL bytes whose lines are at most 1023 bytes long there are \<open>N\<close>
  groups of records, one per split, such that split \<open>i\<close> is the concatenation of group
  \<open>i\<close> and the groups, in index order, are a prefix of the list of the input's records.
\<close>

lemma partition_whole_records:
  assumes "text_input inp" and "1 \<le> N"
  shows "\<exists>rss. length rss = N \<and> partition_input inp N = Some (map concat rss) \<and>
           prefix (concat rss) (records inp) \<and>
           prefix (concat (map concat rss)) inp"
proof -
  from split_loop_whole [OF assms(1), of N "split_size_of inp N"]
  obtain rss where rss: "length rss = N"
    "split_loop N (split_size_of inp N) inp = map concat rss"
    "prefix (concat rss) (records inp)"
    by auto
  from rss(3) obtain tl where "records inp = concat rss @ tl"
    by (auto simp: prefix_def)
  then have "concat (records inp) = concat (concat rss) @ concat tl" by simp
  then have "prefix (concat (map concat rss)) inp"
    by (simp add: concat_records concat_concat prefix_def)
  with rss assms(2) show ?thesis
    by (intro exI [of _ rss]) (simp add: partition_input_def)
qed
section \<open>The traces of the coordinator\<close>

text \<open>
  The five ways a run of the coordinator can end, each with its trace: a \<open>fork\<close> of
  phase 2 fails, a map worker never terminates, the \<open>fork\<close> of the reduce worker fails,
  the reduce worker never terminates, or \<open>mapreduce\<close> returns.
\<close>

definition pid_of :: "fork_result \<Rightarrow> int" where
  "pid_of r = (case r of Fork_failed \<Rightarrow> - 1 | Forked pid \<Rightarrow> pid)"

definition wait_events :: "(nat \<Rightarrow> wstatus option) \<Rightarrow> nat \<Rightarrow> event list" where
  "wait_events ws i =
     Wait_map i # (if reports_failure (the (ws i)) then [Map_failed i] else [])"

lemma fork_maps_ok:
  "(\<And>i. i \<in> set is \<Longrightarrow> fk i \<noteq> Fork_failed) \<Longrightarrow>
   fork_maps fk is s =
     Inr (s\<lparr>trace := trace s @ map (\<lambda>i. Spawn_map i (pid_of (fk i))) is,
            map_worker_pid := map_worker_pid s @ map (\<lambda>i. pid_of (fk i)) is\<rparr>)"
proof (induction "is" arbitrary: s)
  case Nil
  then show ?case by simp
next
  case (Cons i "is")
  from Cons.prems [of i] obtain pid where pid: "fk i = Forked pid" by (cases "fk i") auto
  show ?case using Cons.IH Cons.prems pid by (simp add: pid_of_def)
qed

lemma fork_maps_fail:
  "(\<And>j. j \<in> set as \<Longrightarrow> fk j \<noteq> Fork_failed) \<Longrightarrow> fk i = Fork_failed \<Longrightarrow>
   fork_maps fk (as @ i # bs) s =
     Inl (s\<lparr>trace := trace s @ map (\<lambda>j. Spawn_map j (pid_of (fk j))) as @ [Fork_map_failed i],
            map_worker_pid := map_worker_pid s @ map (\<lambda>j. pid_of (fk j)) as\<rparr>)"
proof (induction as arbitrary: s)
  case Nil
  then show ?case by simp
next
  case (Cons j as)
  from Cons.prems(1) [of j] obtain pid where pid: "fk j = Forked pid" by (cases "fk j") auto
  show ?case using Cons.IH Cons.prems pid by (simp add: pid_of_def)
qed

lemma wait_maps_ok:
  "(\<And>i. i \<in> set is \<Longrightarrow> ws i \<noteq> None) \<Longrightarrow>
   wait_maps ws is s = Inr (s\<lparr>trace := trace s @ concat (map (wait_events ws) is)\<rparr>)"
proof (induction "is" arbitrary: s)
  case Nil
  then show ?case by simp
next
  case (Cons i "is")
  from Cons.prems [of i] obtain st where st: "ws i = Some st" by auto
  show ?case using Cons.IH Cons.prems st by (simp add: wait_events_def)
qed

lemma wait_maps_blocked:
  "(\<And>j. j \<in> set as \<Longrightarrow> ws j \<noteq> None) \<Longrightarrow> ws i = None \<Longrightarrow>
   wait_maps ws (as @ i # bs) s = Inl (s\<lparr>trace := trace s @ concat (map (wait_events ws) as)\<rparr>)"
proof (induction as arbitrary: s)
  case Nil
  then show ?case by simp
next
  case (Cons j as)
  from Cons.prems(1) [of j] obtain st where st: "ws j = Some st" by auto
  show ?case using Cons.IH Cons.prems st by (simp add: wait_events_def)
qed

definition spawn_trace :: "environment \<Rightarrow> nat list \<Rightarrow> event list" where
  "spawn_trace e is = map (\<lambda>i. Spawn_map i (pid_of (fork_map e i))) is"

definition wait_trace :: "environment \<Rightarrow> nat list \<Rightarrow> event list" where
  "wait_trace e is = concat (map (wait_events (wait_map e)) is)"

definition reduce_diag :: "environment \<Rightarrow> event list" where
  "reduce_diag e = (if reports_failure (the (wait_reduce e)) then [Reduce_failed] else [])"

lemma coordinator_cases:
  obtains
    (fork_failed) as i bs where "[0..<N] = as @ i # bs" "fork_map e i = Fork_failed"
      "\<forall>j\<in>set as. fork_map e j \<noteq> Fork_failed"
      "coordinator e N = (Process_exit ERROR,
         \<lparr>trace = spawn_trace e as @ [Fork_map_failed i],
          map_worker_pid = map (\<lambda>j. pid_of (fork_map e j)) as, reduce_worker_pid = None\<rparr>)"
  | (wait_blocked) as i bs where "\<forall>j<N. fork_map e j \<noteq> Fork_failed"
      "[0..<N] = as @ i # bs" "wait_map e i = None" "\<forall>j\<in>set as. wait_map e j \<noteq> None"
      "coordinator e N = (Blocked,
         \<lparr>trace = spawn_trace e [0..<N] @ wait_trace e as,
          map_worker_pid = map (\<lambda>j. pid_of (fork_map e j)) [0..<N], reduce_worker_pid = None\<rparr>)"
  | (reduce_fork_failed) "\<forall>j<N. fork_map e j \<noteq> Fork_failed" "\<forall>j<N. wait_map e j \<noteq> None"
      "fork_reduce e = Fork_failed"
      "coordinator e N = (Process_exit ERROR,
         \<lparr>trace = spawn_trace e [0..<N] @ wait_trace e [0..<N] @ [Fork_reduce_failed],
          map_worker_pid = map (\<lambda>j. pid_of (fork_map e j)) [0..<N], reduce_worker_pid = None\<rparr>)"
  | (reduce_blocked) pid where "\<forall>j<N. fork_map e j \<noteq> Fork_failed" "\<forall>j<N. wait_map e j \<noteq> None"
      "fork_reduce e = Forked pid" "wait_reduce e = None"
      "coordinator e N = (Blocked,
         \<lparr>trace = spawn_trace e [0..<N] @ wait_trace e [0..<N] @ [Spawn_reduce pid],
          map_worker_pid = map (\<lambda>j. pid_of (fork_map e j)) [0..<N],
          reduce_worker_pid = Some pid\<rparr>)"
  | (returned) pid where "\<forall>j<N. fork_map e j \<noteq> Fork_failed" "\<forall>j<N. wait_map e j \<noteq> None"
      "fork_reduce e = Forked pid" "wait_reduce e \<noteq> None"
      "coordinator e N = (Returned,
         \<lparr>trace = spawn_trace e [0..<N] @ wait_trace e [0..<N] @
                  Spawn_reduce pid # Wait_reduce # reduce_diag e,
          map_worker_pid = map (\<lambda>j. pid_of (fork_map e j)) [0..<N],
          reduce_worker_pid = Some pid\<rparr>)"
proof (cases "\<exists>i\<in>set [0..<N]. fork_map e i = Fork_failed")
  case True
  from split_list_first_prop [OF True]
  obtain as i bs where sp: "[0..<N] = as @ i # bs" "fork_map e i = Fork_failed"
    "\<forall>j\<in>set as. fork_map e j \<noteq> Fork_failed" by blast
  have "coordinator e N = (Process_exit ERROR,
         \<lparr>trace = spawn_trace e as @ [Fork_map_failed i],
          map_worker_pid = map (\<lambda>j. pid_of (fork_map e j)) as, reduce_worker_pid = None\<rparr>)"
    unfolding coordinator_def sp(1) using sp(2,3)
    by (subst fork_maps_fail) (auto simp: spawn_trace_def)
  with sp show ?thesis by (rule fork_failed)
next
  case False
  then have fk: "\<forall>j<N. fork_map e j \<noteq> Fork_failed" by auto
  then have f: "fork_maps (fork_map e) [0..<N]
         \<lparr>trace = [], map_worker_pid = [], reduce_worker_pid = None\<rparr>
      = Inr \<lparr>trace = spawn_trace e [0..<N],
          map_worker_pid = map (\<lambda>j. pid_of (fork_map e j)) [0..<N], reduce_worker_pid = None\<rparr>"
    by (subst fork_maps_ok) (auto simp: spawn_trace_def)
  show ?thesis
  proof (cases "\<exists>i\<in>set [0..<N]. wait_map e i = None")
    case True
    from split_list_first_prop [OF True]
    obtain as i bs where sp: "[0..<N] = as @ i # bs" "wait_map e i = None"
      "\<forall>j\<in>set as. wait_map e j \<noteq> None" by blast
    have "wait_maps (wait_map e) (as @ i # bs) \<lparr>trace = spawn_trace e [0..<N],
          map_worker_pid = map (\<lambda>j. pid_of (fork_map e j)) [0..<N], reduce_worker_pid = None\<rparr>
       = Inl \<lparr>trace = spawn_trace e [0..<N] @ wait_trace e as,
          map_worker_pid = map (\<lambda>j. pid_of (fork_map e j)) [0..<N], reduce_worker_pid = None\<rparr>"
      using sp(2,3) by (subst wait_maps_blocked) (auto simp: wait_trace_def)
    then have "coordinator e N = (Blocked,
         \<lparr>trace = spawn_trace e [0..<N] @ wait_trace e as,
          map_worker_pid = map (\<lambda>j. pid_of (fork_map e j)) [0..<N], reduce_worker_pid = None\<rparr>)"
      unfolding coordinator_def f using sp(1) by simp
    with fk sp show ?thesis by (rule wait_blocked)
  next
    case False
    then have ws: "\<forall>j<N. wait_map e j \<noteq> None" by auto
    then have w: "wait_maps (wait_map e) [0..<N] \<lparr>trace = spawn_trace e [0..<N],
          map_worker_pid = map (\<lambda>j. pid_of (fork_map e j)) [0..<N], reduce_worker_pid = None\<rparr>
       = Inr \<lparr>trace = spawn_trace e [0..<N] @ wait_trace e [0..<N],
          map_worker_pid = map (\<lambda>j. pid_of (fork_map e j)) [0..<N], reduce_worker_pid = None\<rparr>"
      by (subst wait_maps_ok) (auto simp: wait_trace_def)
    show ?thesis
    proof (cases "fork_reduce e")
      case Fork_failed
      then have "coordinator e N = (Process_exit ERROR,
         \<lparr>trace = spawn_trace e [0..<N] @ wait_trace e [0..<N] @ [Fork_reduce_failed],
          map_worker_pid = map (\<lambda>j. pid_of (fork_map e j)) [0..<N], reduce_worker_pid = None\<rparr>)"
        unfolding coordinator_def f by (simp add: w)
      with fk ws Fork_failed show ?thesis by (rule reduce_fork_failed)
    next
      case (Forked pid)
      show ?thesis
      proof (cases "wait_reduce e")
        case None
        with Forked have "coordinator e N = (Blocked,
         \<lparr>trace = spawn_trace e [0..<N] @ wait_trace e [0..<N] @ [Spawn_reduce pid],
          map_worker_pid = map (\<lambda>j. pid_of (fork_map e j)) [0..<N],
          reduce_worker_pid = Some pid\<rparr>)"
          unfolding coordinator_def f by (simp add: w)
        with fk ws Forked None show ?thesis by (rule reduce_blocked)
      next
        case (Some st)
        with Forked have "coordinator e N = (Returned,
         \<lparr>trace = spawn_trace e [0..<N] @ wait_trace e [0..<N] @
                  Spawn_reduce pid # Wait_reduce # reduce_diag e,
          map_worker_pid = map (\<lambda>j. pid_of (fork_map e j)) [0..<N],
          reduce_worker_pid = Some pid\<rparr>)"
          unfolding coordinator_def f by (simp add: w reduce_diag_def)
        moreover from Some have "wait_reduce e \<noteq> None" by simp
        ultimately show ?thesis using fk ws Forked by (intro returned [of pid]) auto
      qed
    qed
  qed
qed

lemma waited_append: "waited (xs @ ys) = waited xs @ waited ys"
  by (induction xs rule: waited.induct) auto

lemma spawned_append: "spawned (xs @ ys) = spawned xs @ spawned ys"
  by (induction xs rule: spawned.induct) auto

lemma spawn_trace_simps:
  "waited (spawn_trace e is) = []"
  "spawned (spawn_trace e is) = is"
  "\<not> list_ex is_spawn_reduce (spawn_trace e is)"
  "length (spawn_trace e is) = length is"
  "Map_failed i \<notin> set (spawn_trace e is)"
  "Reduce_failed \<notin> set (spawn_trace e is)"
  "count_list (spawn_trace e is) (Map_failed i) = 0"
  "takeWhile (\<lambda>ev. \<not> is_spawn_reduce ev) (spawn_trace e is @ rest)
     = spawn_trace e is @ takeWhile (\<lambda>ev. \<not> is_spawn_reduce ev) rest"
  by (induction "is") (auto simp: spawn_trace_def)

lemma wait_trace_simps:
  "waited (wait_trace e is) = is"
  "spawned (wait_trace e is) = []"
  "\<not> list_ex is_spawn_reduce (wait_trace e is)"
  "Reduce_failed \<notin> set (wait_trace e is)"
  "takeWhile (\<lambda>ev. \<not> is_spawn_reduce ev) (wait_trace e is @ rest)
     = wait_trace e is @ takeWhile (\<lambda>ev. \<not> is_spawn_reduce ev) rest"
  by (induction "is") (auto simp: wait_trace_def wait_events_def)

lemma wait_trace_Map_failed:
  "Map_failed i \<in> set (wait_trace e is)
     \<longleftrightarrow> i \<in> set is \<and> reports_failure (the (wait_map e i))"
  by (induction "is") (auto simp: wait_trace_def wait_events_def)

lemma wait_trace_count:
  "count_list (wait_trace e is) (Map_failed i)
     = (if reports_failure (the (wait_map e i)) then count_list is i else 0)"
  by (induction "is") (auto simp: wait_trace_def wait_events_def)

lemma count_list_upt: "count_list [0..<N] i = (if i < N then 1 else 0)"
  by (induction N) auto

lemma reduce_diag_simps:
  "waited (reduce_diag e) = []"
  "spawned (reduce_diag e) = []"
  "\<not> list_ex is_spawn_reduce (reduce_diag e)"
  "Map_failed i \<notin> set (reduce_diag e)"
  "count_list (reduce_diag e) (Map_failed i) = 0"
  by (auto simp: reduce_diag_def)

lemma reports_failure_iff:
  "reports_failure st \<longleftrightarrow> (\<exists>c. st = Exited c \<and> c \<noteq> 0)"
  by (cases st) (auto simp: reports_failure_def SUCCESS_def)

lemmas trace_simps = waited_append spawned_append spawn_trace_simps wait_trace_simps
  reduce_diag_simps

lemma upt_split_prefix:
  assumes "[0..<N] = as @ i # bs"
  shows "as = [0..<i]" and "i < N"
proof -
  have len: "length as < N" using arg_cong [OF assms, of length] by simp
  have "as = take (length as) [0..<N]" using assms by simp
  also have "\<dots> = [0..<length as]" using len by simp
  finally have as: "as = [0..<length as]" .
  have "i = [0..<N] ! length as" using assms by simp
  also have "\<dots> = length as" using len by simp
  finally have i: "i = length as" .
  from as i show "as = [0..<i]" by simp
  from len i show "i < N" by simp
qed

lemma exit_status_ERROR: "exit_status ERROR \<noteq> 0"
  by (simp add: exit_status_def ERROR_def)

lemma upt_2: "[0..<2] = [0, 1]"
  by (simp add: upt_rec)

lemma example_run:
  "coordinator example_env 2 =
     (Returned,
      \<lparr>trace = [Spawn_map 0 100, Spawn_map 1 101, Wait_map 0, Map_failed 0, Wait_map 1,
                Spawn_reduce 200, Wait_reduce],
       map_worker_pid = [100, 101], reduce_worker_pid = Some 200\<rparr>)"
  by (simp add: coordinator_def example_env_def upt_2 reports_failure_def SUCCESS_def)

lemma fork_failure_run:
  "coordinator fork_failure_env 2 =
     (Process_exit ERROR,
      \<lparr>trace = [Spawn_map 0 100, Fork_map_failed 1],
       map_worker_pid = [100], reduce_worker_pid = None\<rparr>)"
  by (simp add: coordinator_def fork_failure_env_def upt_2 reports_failure_def SUCCESS_def)

lemma reduce_fork_failure_run:
  "coordinator reduce_fork_failure_env 2 =
     (Process_exit ERROR,
      \<lparr>trace = [Spawn_map 0 100, Spawn_map 1 101, Wait_map 0, Wait_map 1, Fork_reduce_failed],
       map_worker_pid = [100, 101], reduce_worker_pid = None\<rparr>)"
  by (simp add: coordinator_def reduce_fork_failure_env_def upt_2 reports_failure_def SUCCESS_def)

section \<open>File names and the files a worker touches\<close>

text \<open>
  \<open>dec\<close> is injective and a C \<open>int\<close> has at most 10 digits, so the 20-byte name buffers
  never cut a name and different indices give different names.
\<close>

lemma digit_char: "k < 10 \<Longrightarrow> of_char (''0123456789'' ! k) = (48 + k :: nat)"
proof -
  assume "k < 10"
  then have "k = 0 \<or> k = 1 \<or> k = 2 \<or> k = 3 \<or> k = 4 \<or> k = 5 \<or> k = 6
    \<or> k = 7 \<or> k = 8 \<or> k = 9" by arith
  then show ?thesis by (elim disjE) simp_all
qed

lemma digits_value_snoc:
  "digits_value (ds @ [c]) = 10 * digits_value ds + (of_char c - 48)"
  by (simp add: digits_value_def)

lemma digits_value_dec: "digits_value (dec n) = n"
proof (induction n rule: dec.induct)
  case (1 n)
  show ?case
  proof (cases "n < 10")
    case True
    then show ?thesis
      by (subst dec.simps) (simp add: digits_value_def digit_char)
  next
    case False
    with 1 have "digits_value (dec (n div 10)) = n div 10" by simp
    with False show ?thesis
      by (subst dec.simps) (simp add: digits_value_snoc digit_char)
  qed
qed

lemma dec_inj: "dec m = dec n \<Longrightarrow> m = n"
  by (metis digits_value_dec)

lemma length_dec: "n < 10 ^ k \<Longrightarrow> 0 < k \<Longrightarrow> length (dec n) \<le> k"
proof (induction k arbitrary: n)
  case 0
  then show ?case by simp
next
  case (Suc k)
  show ?case
  proof (cases "n < 10")
    case True
    then show ?thesis by (subst dec.simps) simp
  next
    case False
    with Suc.prems have k: "0 < k" by (cases k) auto
    from Suc.prems have "n div 10 < 10 ^ k" by (simp add: less_mult_imp_div_less mult.commute)
    from Suc.IH [OF this k] False show ?thesis by (subst dec.simps) simp
  qed
qed

lemma length_dec_int: "i < 2 ^ 31 \<Longrightarrow> length (dec i) \<le> 10"
proof -
  assume "i < 2 ^ 31"
  then have "i < 10 ^ 10" by simp
  then show ?thesis by (rule length_dec) simp
qed

lemma itm_name_int: "i < 2 ^ 31 \<Longrightarrow> itm_name i = ''mr-'' @ dec i @ ''.itm''"
  using length_dec_int [of i] by (simp add: itm_name_def snprintf_def)

lemma split_name_int: "i < 2 ^ 31 \<Longrightarrow> split_name i = ''split-'' @ dec i"
  using length_dec_int [of i] by (simp add: split_name_def snprintf_def)

lemma itm_name_inj: "i < 2 ^ 31 \<Longrightarrow> j < 2 ^ 31 \<Longrightarrow> itm_name i = itm_name j \<Longrightarrow> i = j"
  by (simp add: itm_name_int dec_inj)

lemma split_name_inj: "i < 2 ^ 31 \<Longrightarrow> j < 2 ^ 31 \<Longrightarrow> split_name i = split_name j \<Longrightarrow> i = j"
  by (simp add: split_name_int dec_inj)

lemma itm_name_not_split_name: "itm_name i \<noteq> split_name j"
  by (simp add: itm_name_def split_name_def snprintf_def)

lemma write_splits_other:
  "(\<And>j. name \<noteq> split_name j) \<Longrightarrow> write_splits i ss fs name = fs name"
  by (induction ss arbitrary: i fs) auto

lemma split_phase_keeps_itm:
  "split_phase sp fs = Inr fs1 \<Longrightarrow> fs1 (itm_name i) = fs (itm_name i)"
  by (auto simp: split_phase_def write_splits_other itm_name_not_split_name
      split: option.splits)

lemma names_0_1:
  "split_name 0 = ''split-0''" "split_name (Suc 0) = ''split-1''"
  "itm_name 0 = ''mr-0.itm''" "itm_name (Suc 0) = ''mr-1.itm''"
  by (simp_all add: split_name_def itm_name_def snprintf_def dec.simps)

text \<open>
  Phase 1 writes the \<open>i\<close>-th element of \<open>partition_input\<close> to the file \<open>split-i\<close>: the
  splits of the partitioner are the contents of the split files.
\<close>

lemma write_splits_outside:
  "(\<And>j. i \<le> j \<Longrightarrow> j < i + length ss \<Longrightarrow> name \<noteq> split_name j) \<Longrightarrow>
   write_splits i ss fs name = fs name"
proof (induction ss arbitrary: i fs)
  case Nil
  then show ?case by simp
next
  case (Cons s ss)
  have "write_splits (Suc i) ss (fs(split_name i \<mapsto> s)) name = (fs(split_name i \<mapsto> s)) name"
    by (rule Cons.IH) (use Cons.prems in auto)
  moreover from Cons.prems [of i] have "name \<noteq> split_name i" by simp
  ultimately show ?case by simp
qed

lemma write_splits_lookup:
  "i + length ss \<le> 2 ^ 31 \<Longrightarrow> k < length ss \<Longrightarrow>
   write_splits i ss fs (split_name (i + k)) = Some (ss ! k)"
proof (induction ss arbitrary: i fs k)
  case Nil
  then show ?case by simp
next
  case (Cons s ss)
  show ?case
  proof (cases k)
    case 0
    have "write_splits (Suc i) ss (fs(split_name i \<mapsto> s)) (split_name i)
        = (fs(split_name i \<mapsto> s)) (split_name i)"
    proof (rule write_splits_outside)
      fix j assume "Suc i \<le> j" "j < Suc i + length ss"
      with Cons.prems(1) have "i < 2 ^ 31" "j < 2 ^ 31" "i \<noteq> j" by simp_all
      then show "split_name i \<noteq> split_name j" using split_name_inj by blast
    qed
    with 0 show ?thesis by simp
  next
    case (Suc k')
    with Cons.prems have "Suc i + length ss \<le> 2 ^ 31" "k' < length ss" by simp_all
    from Cons.IH [OF this] Suc show ?thesis by simp
  qed
qed

lemma split_phase_files:
  assumes "fs (input_data_filepath sp) = Some inp"
    and "0 < split_num sp" and "split_num sp < 2 ^ 31"
  shows "\<exists>splits fs'. partition_input inp (split_num sp) = Some splits \<and>
           length splits = split_num sp \<and> split_phase sp fs = Inr fs' \<and>
           (\<forall>i<split_num sp. fs' (split_name i) = Some (splits ! i))"
proof -
  let ?splits = "split_loop (split_num sp) (split_size_of inp (split_num sp)) inp"
  from assms(2) have p: "partition_input inp (split_num sp) = Some ?splits"
    by (simp add: partition_input_def)
  have len: "length ?splits = split_num sp" by (rule length_split_loop)
  have "write_splits 0 ?splits fs (split_name i) = Some (?splits ! i)"
    if "i < split_num sp" for i
    using write_splits_lookup [of 0 ?splits i fs] that assms(3) len by simp
  with p len assms(1) show ?thesis by (simp add: split_phase_def)
qed

text \<open>
  Two map workers with different indices commute: the exit codes and the files are the
  same in either order, which is why \<open>run_map_workers\<close> may run them one after the other.
\<close>

lemma map_workers_commute:
  assumes "i < 2 ^ 31" "j < 2 ^ 31" "i \<noteq> j"
  shows "(case map_worker sp i fs of
            None \<Rightarrow> None
          | Some (ci, fi) \<Rightarrow>
              (case map_worker sp j fi of
                 None \<Rightarrow> None | Some (cj, fij) \<Rightarrow> Some (ci, cj, fij)))
       = (case map_worker sp j fs of
            None \<Rightarrow> None
          | Some (cj, fj) \<Rightarrow>
              (case map_worker sp i fj of
                 None \<Rightarrow> None | Some (ci, fji) \<Rightarrow> Some (ci, cj, fji)))"
proof -
  from assms have ne: "itm_name i \<noteq> itm_name j" using itm_name_inj [of i j] by auto
  have s: "itm_name i \<noteq> split_name j" "itm_name j \<noteq> split_name i"
    by (rule itm_name_not_split_name)+
  show ?thesis using ne s
    by (auto simp: map_worker_def fun_upd_twist split: option.splits)
qed

section \<open>The word finder reads its split byte by byte\<close>

text \<open>
  The 1024-byte reads do not matter to the word finder: its state carries over from one
  buffer to the next, so the outer loop is the inner loop over the whole split.
\<close>

lemma wf_buffer_None: "wf_buffer w cs None = None"
  by (cases cs) auto

lemma wf_buffer_append: "wf_buffer w (a @ b) s = wf_buffer w b (wf_buffer w a s)"
proof (induction a arbitrary: s)
  case Nil
  then show ?case by simp
next
  case (Cons c a)
  then show ?case by (cases s) (auto simp: wf_buffer_None)
qed

lemma read_loop_whole:
  assumes app: "\<And>a b s. body (a @ b) s = body b (body a s)"
    and nil: "\<And>s. body [] s = s" and n: "0 < n"
  shows "read_loop n body data s = body data s"
proof (induction "length data" arbitrary: data s rule: less_induct)
  case less
  show ?case
  proof (cases "data = []")
    case True
    then show ?thesis by (simp add: read_loop.simps [of n body "[]"] nil)
  next
    case False
    with n have "length (drop n data) < length data" by simp
    from less [OF this]
    have "read_loop n body (drop n data) (body (take n data) s)
        = body (drop n data) (body (take n data) s)" .
    also have "\<dots> = body (take n data @ drop n data) s" by (simp only: app)
    finally show ?thesis using False n
      by (subst read_loop.simps) simp
  qed
qed

lemma wf_read_loop: "read_loop 1024 (wf_buffer w) data s = wf_buffer w data s"
  by (rule read_loop_whole) (simp_all add: wf_buffer_append)

lemma end_of_line_current_line:
  "end_of_line w s = Some s' \<Longrightarrow> current_line s' = [] \<and> (\<exists>out. written s' = written s @ out)"
  by (auto simp: end_of_line_def Let_def split: option.splits)

lemma wf_buffer_ends_line:
  assumes "body \<noteq> []" "last body = newline" "wf_buffer w body (Some s) = Some s'"
  shows "current_line s' = []"
proof -
  from assms(1,2) have body: "body = butlast body @ [newline]"
    by (metis append_butlast_last_id)
  from assms(3) obtain st where st: "wf_buffer w (butlast body) (Some s) = Some st"
    and e: "wf_byte w newline st = Some s'"
    by (subst (asm) body) (auto simp: wf_buffer_append split: option.splits)
  from e have "end_of_line w st = Some s'" by (simp add: wf_byte_def)
  then show ?thesis by (simp add: end_of_line_current_line)
qed

lemma wf_buffer_partial_line:
  "newline \<notin> set l \<Longrightarrow> length (current_line s) + length l \<le> 1023 \<Longrightarrow>
   wf_buffer w l (Some s) = Some (s\<lparr>current_line := current_line s @ l\<rparr>)"
proof (induction l arbitrary: s)
  case Nil
  then show ?case by simp
next
  case (Cons c l)
  from Cons.prems have step: "wf_byte w c s = Some (s\<lparr>current_line := current_line s @ [c]\<rparr>)"
    by (auto simp: wf_byte_def)
  from Cons.prems have "length (current_line (s\<lparr>current_line := current_line s @ [c]\<rparr>))
      + length l \<le> 1023" by simp
  from Cons.IH [OF _ this] Cons.prems(1) step show ?case by simp
qed

text \<open>
  With a non-empty target word the search loop ends, and so does \<open>word_finder_map\<close>,
  with return value 0.
\<close>

lemma strstr_bound: "strstr h w = Some k \<Longrightarrow> k + length w \<le> length h"
proof (induction h arbitrary: k)
  case Nil
  then show ?case by (auto split: if_splits)
next
  case (Cons c cs)
  show ?case
  proof (cases "prefix w (c # cs)")
    case True
    with Cons.prems have "k = 0" by simp
    with True show ?thesis using prefix_length_le by fastforce
  next
    case False
    with Cons.prems obtain k' where "strstr cs w = Some k'" "k = Suc k'" by auto
    with Cons.IH show ?thesis by auto
  qed
qed

lemma word_search_total:
  assumes "w \<noteq> []"
  shows "\<exists>found. word_search line w p = Some found"
proof (induction "length line - p" arbitrary: p rule: less_induct)
  case less
  show ?case
  proof (cases "strstr (drop p line) w")
    case None
    then have "word_search line w p = Some False" by (subst word_search.simps) simp
    then show ?thesis by blast
  next
    case (Some k)
    from strstr_bound [OF Some] have b: "k + length w \<le> length line - p" by simp
    from assms have "0 < length w" by simp
    with b have "length line - (p + k + length w) < length line - p" by linarith
    from less [OF this] obtain found
      where found: "word_search line w (p + k + length w) = Some found" by blast
    show ?thesis
    proof (cases "(p + k = 0 \<or> line ! (p + k - 1) = CHR '' '')
        \<and> word_end (drop (p + k + length w) line)")
      case True
      with Some have "word_search line w p = Some True"
        by (subst word_search.simps) simp
      then show ?thesis by blast
    next
      case False
      with Some have "word_search line w p = word_search line w (p + k + length w)"
        by (subst word_search.simps) auto
      with found show ?thesis by simp
    qed
  qed
qed

lemma end_of_line_total:
  "w \<noteq> [] \<Longrightarrow> \<exists>s'. end_of_line w s = Some s'"
  using word_search_total [of w "cstr (current_line s)" 0]
  by (auto simp: end_of_line_def Let_def)

lemma wf_buffer_total:
  "w \<noteq> [] \<Longrightarrow> \<exists>s'. wf_buffer w cs (Some s) = Some s'"
proof (induction cs arbitrary: s)
  case Nil
  then show ?case by simp
next
  case (Cons c cs)
  from end_of_line_total [OF Cons.prems, of s]
  have "\<exists>st. wf_byte w c s = Some st" by (simp add: wf_byte_def)
  then obtain st where "wf_byte w c s = Some st" by blast
  with Cons.IH [OF Cons.prems, of st] show ?case by simp
qed

lemma word_finder_map_returns:
  "cstr word \<noteq> [] \<Longrightarrow> \<exists>out. word_finder_map stack (Some word) split = Some (0, out)"
  using wf_buffer_total [of "cstr word" split]
  by (auto simp: word_finder_map_def wf_read_loop split: option.splits)

section \<open>The two example jobs, step by step\<close>

lemma read_loop_small:
  "0 < count \<Longrightarrow> length data \<le> count \<Longrightarrow> data \<noteq> [] \<Longrightarrow>
   read_loop count body data s = body data s"
  by (simp add: read_loop.simps [of count body data] read_loop.simps [of count body "[]"])

lemma end_of_line_text:
  "NUL \<notin> set (current_line s) \<Longrightarrow>
   end_of_line w s =
     map_option (\<lambda>found.
        \<lparr>current_line = [],
         original_line_copy = strcpy (original_line_copy s) (current_line s),
         written = written s @ (if found then current_line s @ [newline] else [])\<rparr>)
       (word_search (current_line s) w 0)"
  by (auto simp: end_of_line_def cstr_no_NUL strcpy_def Let_def split: option.splits)

lemma word_search_the_cat_sat: "word_search ''the cat sat'' ''cat'' 0 = Some True"
  by code_simp

lemma word_search_concatenate: "word_search ''concatenate'' ''cat'' 0 = Some False"
  by code_simp

lemmas wf_eval = word_finder_map_def wf_read_loop wf_byte_def end_of_line_text
  word_search_the_cat_sat word_search_concatenate cstr_def NUL_def newline_def

lemma word_map_whole:
  "word_finder_map stack (Some ''cat'')
     (''the cat sat'' @ [newline] @ ''concatenate'' @ [newline])
     = Some (0, ''the cat sat'' @ [newline])"
  by (simp add: wf_eval)

lemma word_map_0:
  "word_finder_map stack (Some ''cat'') (''the cat sat'' @ [newline])
     = Some (0, ''the cat sat'' @ [newline])"
  by (simp add: wf_eval)

lemma word_map_1:
  "word_finder_map stack (Some ''cat'') (''concatenate'' @ [newline]) = Some (0, [])"
  by (simp add: wf_eval)

lemma letter_partition:
  "partition_input (''AAAB'' @ [newline] @ ''BBCC'' @ [newline]) 2
     = Some [''AAAB'' @ [newline], ''BBCC'' @ [newline]]"
  by code_simp

lemma letter_map_0:
  "letter_counter_map None (''AAAB'' @ [newline])
     = Some (0, ''A 3'' @ [newline] @ ''B 1'' @ [newline])"
  by code_simp

lemma letter_map_1:
  "letter_counter_map None (''BBCC'' @ [newline])
     = Some (0, ''B 2'' @ [newline] @ ''C 2'' @ [newline])"
  by code_simp

lemma letter_reduce:
  "letter_counter_reduce
     [''A 3'' @ [newline] @ ''B 1'' @ [newline], ''B 2'' @ [newline] @ ''C 2'' @ [newline]]
     = Some (0, ''A 3'' @ [newline] @ ''B 3'' @ [newline] @ ''C 2'' @ [newline])"
  by code_simp

lemma letter_split_phase: "split_phase letter_job letter_input = Inr letter_splits"
  using letter_partition
  by (simp add: split_phase_def letter_job_def letter_input_def letter_splits_def names_0_1)

lemma letter_worker_0:
  "map_worker letter_job 0 letter_splits
     = Some (0, letter_splits(''mr-0.itm'' \<mapsto> ''A 3'' @ [newline] @ ''B 1'' @ [newline]))"
  using letter_map_0
  by (simp add: map_worker_def letter_job_def letter_splits_def names_0_1 SUCCESS_def)

lemma letter_worker_1:
  "map_worker letter_job (Suc 0) letter_splits
     = Some (0, letter_splits(''mr-1.itm'' \<mapsto> ''B 2'' @ [newline] @ ''C 2'' @ [newline]))"
  using letter_map_1
  by (simp add: map_worker_def letter_job_def letter_splits_def names_0_1 SUCCESS_def)

lemma letter_run:
  "run_job letter_job letter_input = Completed [0, 0] 0
     (letter_splits(''mr-0.itm'' \<mapsto> ''A 3'' @ [newline] @ ''B 1'' @ [newline],
                    ''mr-1.itm'' \<mapsto> ''B 2'' @ [newline] @ ''C 2'' @ [newline],
                    ''mr.rst'' \<mapsto> ''A 3'' @ [newline] @ ''B 3'' @ [newline] @ ''C 2'' @ [newline]))"
proof -
  have maps: "run_map_workers letter_job [0..<split_num letter_job] letter_splits
      = Some ([0, 0],
          letter_splits(''mr-0.itm'' \<mapsto> ''A 3'' @ [newline] @ ''B 1'' @ [newline],
                        ''mr-1.itm'' \<mapsto> ''B 2'' @ [newline] @ ''C 2'' @ [newline]))"
    using letter_map_0 letter_map_1
    by (simp add: map_worker_def letter_job_def letter_splits_def names_0_1 SUCCESS_def upt_2)
  have red: "reduce_worker letter_job
       (letter_splits(''mr-0.itm'' \<mapsto> ''A 3'' @ [newline] @ ''B 1'' @ [newline],
                      ''mr-1.itm'' \<mapsto> ''B 2'' @ [newline] @ ''C 2'' @ [newline]))
      = Some (0,
          letter_splits(''mr-0.itm'' \<mapsto> ''A 3'' @ [newline] @ ''B 1'' @ [newline],
                        ''mr-1.itm'' \<mapsto> ''B 2'' @ [newline] @ ''C 2'' @ [newline],
                        ''mr.rst'' \<mapsto> ''A 3'' @ [newline] @ ''B 3'' @ [newline] @ ''C 2'' @ [newline]))"
    using letter_reduce
    by (simp add: reduce_worker_def letter_job_def names_0_1 upt_2 SUCCESS_def result_name_def)
  show ?thesis
    by (simp only: run_job_def letter_split_phase maps red sum.case option.case prod.case)
qed

lemma word_partition_1:
  "partition_input (''the cat sat'' @ [newline] @ ''concatenate'' @ [newline]) 1
     = Some [''the cat sat'' @ [newline] @ ''concatenate'' @ [newline]]"
  by code_simp

lemma word_partition_2:
  "partition_input (''the cat sat'' @ [newline] @ ''concatenate'' @ [newline]) 2
     = Some [''the cat sat'' @ [newline], ''concatenate'' @ [newline]]"
  by code_simp

lemma word_reduce_1:
  "word_finder_reduce [''the cat sat'' @ [newline]] = Some (0, ''the cat sat'' @ [newline])"
  by code_simp

lemma word_reduce_2:
  "word_finder_reduce [''the cat sat'' @ [newline], []] = Some (0, ''the cat sat'' @ [newline])"
  by code_simp

lemma word_run_1:
  "run_job (word_job stack 1) word_input = Completed [0] 0
     (word_input(''split-0'' \<mapsto> ''the cat sat'' @ [newline] @ ''concatenate'' @ [newline],
                 ''mr-0.itm'' \<mapsto> ''the cat sat'' @ [newline],
                 ''mr.rst'' \<mapsto> ''the cat sat'' @ [newline]))"
proof -
  have sp: "split_phase (word_job stack 1) word_input
      = Inr (word_input(''split-0'' \<mapsto>
               ''the cat sat'' @ [newline] @ ''concatenate'' @ [newline]))"
    using word_partition_1
    by (simp add: split_phase_def word_job_def word_input_def names_0_1)
  have maps: "run_map_workers (word_job stack 1) [0..<split_num (word_job stack 1)]
       (word_input(''split-0'' \<mapsto>
               ''the cat sat'' @ [newline] @ ''concatenate'' @ [newline]))
      = Some ([0],
          word_input(''split-0'' \<mapsto>
               ''the cat sat'' @ [newline] @ ''concatenate'' @ [newline],
                     ''mr-0.itm'' \<mapsto> ''the cat sat'' @ [newline]))"
    using word_map_whole [of stack]
    by (simp add: map_worker_def word_job_def names_0_1 SUCCESS_def)
  have red: "reduce_worker (word_job stack 1)
       (word_input(''split-0'' \<mapsto>
               ''the cat sat'' @ [newline] @ ''concatenate'' @ [newline],
                     ''mr-0.itm'' \<mapsto> ''the cat sat'' @ [newline]))
      = Some (0,
          word_input(''split-0'' \<mapsto>
               ''the cat sat'' @ [newline] @ ''concatenate'' @ [newline],
                     ''mr-0.itm'' \<mapsto> ''the cat sat'' @ [newline],
                     ''mr.rst'' \<mapsto> ''the cat sat'' @ [newline]))"
    using word_reduce_1
    by (simp add: reduce_worker_def word_job_def names_0_1 SUCCESS_def result_name_def)
  show ?thesis
    by (simp only: run_job_def sp maps red sum.case option.case prod.case)
qed

lemma word_run_2:
  "run_job (word_job stack 2) word_input = Completed [0, 0] 0
     (word_input(''split-0'' \<mapsto> ''the cat sat'' @ [newline],
                 ''split-1'' \<mapsto> ''concatenate'' @ [newline],
                 ''mr-0.itm'' \<mapsto> ''the cat sat'' @ [newline],
                 ''mr-1.itm'' \<mapsto> [],
                 ''mr.rst'' \<mapsto> ''the cat sat'' @ [newline]))"
proof -
  have sp: "split_phase (word_job stack 2) word_input
      = Inr (word_input(''split-0'' \<mapsto> ''the cat sat'' @ [newline],
                        ''split-1'' \<mapsto> ''concatenate'' @ [newline]))"
    using word_partition_2
    by (simp add: split_phase_def word_job_def word_input_def names_0_1)
  have maps: "run_map_workers (word_job stack 2) [0..<split_num (word_job stack 2)]
       (word_input(''split-0'' \<mapsto> ''the cat sat'' @ [newline],
                   ''split-1'' \<mapsto> ''concatenate'' @ [newline]))
      = Some ([0, 0],
          word_input(''split-0'' \<mapsto> ''the cat sat'' @ [newline],
                     ''split-1'' \<mapsto> ''concatenate'' @ [newline],
                     ''mr-0.itm'' \<mapsto> ''the cat sat'' @ [newline],
                     ''mr-1.itm'' \<mapsto> []))"
    using word_map_0 [of stack] word_map_1 [of stack]
    by (simp add: map_worker_def word_job_def names_0_1 SUCCESS_def upt_2)
  have red: "reduce_worker (word_job stack 2)
       (word_input(''split-0'' \<mapsto> ''the cat sat'' @ [newline],
                     ''split-1'' \<mapsto> ''concatenate'' @ [newline],
                     ''mr-0.itm'' \<mapsto> ''the cat sat'' @ [newline],
                     ''mr-1.itm'' \<mapsto> []))
      = Some (0,
          word_input(''split-0'' \<mapsto> ''the cat sat'' @ [newline],
                     ''split-1'' \<mapsto> ''concatenate'' @ [newline],
                     ''mr-0.itm'' \<mapsto> ''the cat sat'' @ [newline],
                     ''mr-1.itm'' \<mapsto> [],
                     ''mr.rst'' \<mapsto> ''the cat sat'' @ [newline]))"
    using word_reduce_2
    by (simp add: reduce_worker_def word_job_def names_0_1 upt_2 SUCCESS_def result_name_def)
  show ?thesis
    by (simp only: run_job_def sp maps red sum.case option.case prod.case)
qed

section \<open>The search loop against the word-boundary rule\<close>

text \<open>
  For a word that is not empty and has no space in it, the search loop started at
  position \<open>p\<close> of a line answers whether the word stands somewhere at or after \<open>p\<close>
  with the boundaries of \<open>whole_word_at\<close>. (After a rejected occurrence the loop goes on
  behind it; an occurrence that overlaps the rejected one would have to follow a space
  inside the word.)
\<close>

lemma strstr_Some:
  "strstr h w = Some k \<Longrightarrow> prefix w (drop k h) \<and> (\<forall>j<k. \<not> prefix w (drop j h))"
proof (induction h arbitrary: k)
  case Nil
  then show ?case by (auto split: if_splits)
next
  case (Cons c cs)
  show ?case
  proof (cases "prefix w (c # cs)")
    case True
    with Cons.prems show ?thesis by simp
  next
    case False
    with Cons.prems obtain k' where k': "strstr cs w = Some k'" "k = Suc k'" by auto
    from Cons.IH [OF k'(1)] have ih: "prefix w (drop k' cs)" "\<forall>j<k'. \<not> prefix w (drop j cs)"
      by simp_all
    have "\<not> prefix w (drop j (c # cs))" if "j < k" for j
    proof (cases j)
      case 0
      with False show ?thesis by simp
    next
      case (Suc j')
      with that k'(2) ih(2) show ?thesis by simp
    qed
    with ih(1) k'(2) show ?thesis by simp
  qed
qed

lemma strstr_None: "strstr h w = None \<Longrightarrow> \<not> prefix w (drop j h)"
proof (induction h arbitrary: j)
  case Nil
  then show ?case by (auto split: if_splits)
next
  case (Cons c cs)
  from Cons.prems have np: "\<not> prefix w (c # cs)" and n: "strstr cs w = None"
    by (auto split: if_splits)
  show ?case
  proof (cases j)
    case 0
    with np show ?thesis by simp
  next
    case (Suc j')
    with Cons.IH [OF n, of j'] show ?thesis by simp
  qed
qed

lemma word_end_drop:
  "n \<le> length line \<Longrightarrow>
   word_end (drop n line) \<longleftrightarrow>
     (n = length line \<or> line ! n = CHR '','' \<or> line ! n = CHR ''.'' \<or> line ! n = CHR '' '')"
proof (cases "n = length line")
  case True
  then show ?thesis by (simp add: word_end_def)
next
  case False
  assume "n \<le> length line"
  with False have n: "n < length line" by simp
  then have "drop n line = line ! n # drop (Suc n) line" by (rule Cons_nth_drop_Suc [symmetric])
  with False show ?thesis by (simp add: word_end_def)
qed

lemma prefix_drop_length: "prefix w (drop q line) \<Longrightarrow> w \<noteq> [] \<Longrightarrow> q + length w \<le> length line"
proof -
  assume p: "prefix w (drop q line)" and w: "w \<noteq> []"
  from p have "length w \<le> length (drop q line)" by (rule prefix_length_le)
  with w show ?thesis by (cases "q \<le> length line") auto
qed

lemma prefix_drop_nth:
  "prefix w (drop q line) \<Longrightarrow> j < length w \<Longrightarrow> line ! (q + j) = w ! j"
proof -
  assume p: "prefix w (drop q line)" and j: "j < length w"
  from p obtain t where t: "drop q line = w @ t" by (auto simp: prefix_def)
  from p j have "q + j < length line"
    using prefix_length_le [OF p] by simp
  then have "line ! (q + j) = drop q line ! j" by simp
  with t j show ?thesis by (simp add: nth_append)
qed

lemma word_search_whole_word:
  assumes w: "w \<noteq> []" and sp: "CHR '' '' \<notin> set w"
  shows "word_search line w p = Some (\<exists>q\<ge>p. whole_word_at line w q)"
proof (induction "length line - p" arbitrary: p rule: less_induct)
  case less
  show ?case
  proof (cases "strstr (drop p line) w")
    case None
    have "\<not> whole_word_at line w q" if "p \<le> q" for q
    proof -
      from strstr_None [OF None, of "q - p"] that have "\<not> prefix w (drop q line)" by simp
      then show ?thesis by (simp add: whole_word_at_def)
    qed
    then have "\<not> (\<exists>q\<ge>p. whole_word_at line w q)" by blast
    moreover from None have "word_search line w p = Some False"
      by (subst word_search.simps) simp
    ultimately show ?thesis by simp
  next
    case (Some k)
    let ?q0 = "p + k"
    from strstr_Some [OF Some] have pre: "prefix w (drop ?q0 line)"
      and first: "\<forall>j<k. \<not> prefix w (drop (p + j) line)"
      by (simp_all add: add.commute)
    from prefix_drop_length [OF pre w] have bound: "?q0 + length w \<le> length line" .
    let ?cond = "(?q0 = 0 \<or> line ! (?q0 - 1) = CHR '' '')
        \<and> word_end (drop (?q0 + length w) line)"
    have cond: "?cond \<longleftrightarrow> whole_word_at line w ?q0"
      using pre word_end_drop [OF bound] by (simp add: whole_word_at_def)
    show ?thesis
    proof (cases ?cond)
      case True
      with Some have "word_search line w p = Some True"
        by (subst word_search.simps) simp
      moreover from True cond have "whole_word_at line w ?q0" by blast
      then have "\<exists>q\<ge>p. whole_word_at line w q" by (intro exI [of _ ?q0]) simp
      ultimately show ?thesis by simp
    next
      case False
      with Some have step: "word_search line w p = word_search line w (?q0 + length w)"
        by (subst word_search.simps) auto
      from w bound have "length line - (?q0 + length w) < length line - p"
        by (cases w) auto
      from less [OF this]
      have ih: "word_search line w (?q0 + length w)
          = Some (\<exists>q\<ge>?q0 + length w. whole_word_at line w q)" .
      have "?q0 + length w \<le> q" if q: "p \<le> q" "whole_word_at line w q" for q
      proof (rule ccontr)
        assume "\<not> ?q0 + length w \<le> q"
        then have lt: "q < ?q0 + length w" by simp
        from q(2) have qp: "prefix w (drop q line)"
          and qb: "q = 0 \<or> line ! (q - 1) = CHR '' ''"
          by (simp_all add: whole_word_at_def)
        show False
        proof (cases "q < ?q0")
          case True
          with q(1) have "q - p < k" "p + (q - p) = q" by simp_all
          with first [rule_format, of "q - p"] qp show False by simp
        next
          case n: False
          show False
          proof (cases "q = ?q0")
            case True
            with q(2) cond False show False by simp
          next
            case False
            with n have gt: "?q0 < q" by simp
            with qb have "line ! (q - 1) = CHR '' ''" by simp
            moreover from gt lt have "q - 1 - ?q0 < length w" by simp
            from prefix_drop_nth [OF pre this] gt
            have "line ! (q - 1) = w ! (q - 1 - ?q0)" by simp
            moreover from gt lt have "w ! (q - 1 - ?q0) \<in> set w" by simp
            ultimately show False using sp by simp
          qed
        qed
      qed
      then have "(\<exists>q\<ge>p. whole_word_at line w q)
          \<longleftrightarrow> (\<exists>q\<ge>?q0 + length w. whole_word_at line w q)"
        by (meson le_add1 le_trans add.assoc)
      with step ih show ?thesis by simp
    qed
  qed
qed

section \<open>The pipeline, file by file\<close>

text \<open>
  When every map worker and the reduce worker return \<open>SUCCESS\<close>, the job completes and
  leaves the splits, the outputs of the map workers and the output of the reduce worker
  under their names.
\<close>

lemma run_map_workers_files:
  assumes "\<forall>i\<in>set is. i < 2 ^ 31" and "distinct is"
    and "\<forall>i\<in>set is. \<exists>split. fs (split_name i) = Some split \<and>
           map_func sp (usr_data sp) split = Some (SUCCESS, outs i)"
  shows "\<exists>fs'. run_map_workers sp is fs = Some (map (\<lambda>i. SUCCESS) is, fs') \<and>
           (\<forall>i\<in>set is. fs' (itm_name i) = Some (outs i)) \<and>
           (\<forall>name. name \<notin> itm_name ` set is \<longrightarrow> fs' name = fs name)"
  using assms
proof (induction "is" arbitrary: fs)
  case Nil
  then show ?case by simp
next
  case (Cons i "is")
  from Cons.prems(3) obtain split where split: "fs (split_name i) = Some split"
    "map_func sp (usr_data sp) split = Some (SUCCESS, outs i)" by auto
  let ?fs1 = "fs(itm_name i \<mapsto> outs i)"
  from split have w: "map_worker sp i fs = Some (SUCCESS, ?fs1)"
    by (simp add: map_worker_def)
  have ne: "split_name j \<noteq> itm_name i" for j
    using itm_name_not_split_name [of i j] by auto
  have "\<forall>j\<in>set is. \<exists>split. ?fs1 (split_name j) = Some split \<and>
           map_func sp (usr_data sp) split = Some (SUCCESS, outs j)"
    using Cons.prems(3) by (simp add: ne)
  then have "\<exists>fs'. run_map_workers sp is ?fs1 = Some (map (\<lambda>i. SUCCESS) is, fs') \<and>
           (\<forall>j\<in>set is. fs' (itm_name j) = Some (outs j)) \<and>
           (\<forall>name. name \<notin> itm_name ` set is \<longrightarrow> fs' name = ?fs1 name)"
    using Cons.prems(1,2) by (intro Cons.IH) simp_all
  then obtain fs' where fs': "run_map_workers sp is ?fs1 = Some (map (\<lambda>i. SUCCESS) is, fs')"
    "\<forall>j\<in>set is. fs' (itm_name j) = Some (outs j)"
    "\<forall>name. name \<notin> itm_name ` set is \<longrightarrow> fs' name = ?fs1 name"
    by blast
  have "itm_name i \<notin> itm_name ` set is"
  proof
    assume "itm_name i \<in> itm_name ` set is"
    then obtain j where j: "j \<in> set is" "itm_name i = itm_name j" by auto
    with Cons.prems(1) itm_name_inj [of i j] have "i = j" by simp
    with j(1) Cons.prems(2) show False by simp
  qed
  with fs'(3) have here: "fs' (itm_name i) = Some (outs i)" by simp
  have run: "run_map_workers sp (i # is) fs = Some (map (\<lambda>i. SUCCESS) (i # is), fs')"
    using w fs'(1) by simp
  have all: "\<forall>j\<in>set (i # is). fs' (itm_name j) = Some (outs j)"
    using here fs'(2) by simp
  have other: "\<forall>name. name \<notin> itm_name ` set (i # is) \<longrightarrow> fs' name = fs name"
    using fs'(3) by simp
  from run all other show ?case by blast
qed

lemma those_map_Some: "those (map (\<lambda>i. Some (f i)) xs) = Some (map f xs)"
  by (induction xs) auto

lemma result_name_not_itm: "result_name \<noteq> itm_name i"
  by (simp add: result_name_def itm_name_def snprintf_def)

lemma result_name_not_split: "result_name \<noteq> split_name i"
  by (simp add: result_name_def split_name_def snprintf_def)

lemma run_job_files:
  assumes inp: "fs (input_data_filepath sp) = Some inp"
    and N: "0 < split_num sp" "split_num sp < 2 ^ 31"
    and part: "partition_input inp (split_num sp) = Some splits"
    and maps: "\<forall>i<split_num sp. map_func sp (usr_data sp) (splits ! i) = Some (SUCCESS, outs i)"
    and red: "reduce_func sp (map outs [0..<split_num sp]) = Some (SUCCESS, res)"
  shows "\<exists>fs'. run_job sp fs = Completed (replicate (split_num sp) SUCCESS) SUCCESS fs' \<and>
           fs' result_name = Some res \<and>
           (\<forall>i<split_num sp. fs' (itm_name i) = Some (outs i) \<and>
                              fs' (split_name i) = Some (splits ! i))"
proof -
  let ?N = "split_num sp"
  from split_phase_files [where fs = fs and sp = sp and inp = inp, OF inp N(1) N(2)] part
  obtain fs1 where fs1: "split_phase sp fs = Inr fs1"
    "\<forall>i<?N. fs1 (split_name i) = Some (splits ! i)" by auto
  have "\<exists>fs2. run_map_workers sp [0..<?N] fs1 = Some (map (\<lambda>i. SUCCESS) [0..<?N], fs2) \<and>
           (\<forall>i\<in>set [0..<?N]. fs2 (itm_name i) = Some (outs i)) \<and>
           (\<forall>name. name \<notin> itm_name ` set [0..<?N] \<longrightarrow> fs2 name = fs1 name)"
    using N(2) fs1(2) maps by (intro run_map_workers_files) auto
  then obtain fs2 where fs2:
    "run_map_workers sp [0..<?N] fs1 = Some (map (\<lambda>i. SUCCESS) [0..<?N], fs2)"
    "\<forall>i<?N. fs2 (itm_name i) = Some (outs i)"
    "\<forall>name. name \<notin> itm_name ` set [0..<?N] \<longrightarrow> fs2 name = fs1 name"
    by auto
  have codes: "map (\<lambda>i. SUCCESS) [0..<?N] = replicate ?N SUCCESS"
    by (simp add: map_replicate_const)
  from fs2(2) have "map (\<lambda>i. fs2 (itm_name i)) [0..<?N] = map (\<lambda>i. Some (outs i)) [0..<?N]"
    by simp
  then have th: "those (map (\<lambda>i. fs2 (itm_name i)) [0..<?N]) = Some (map outs [0..<?N])"
    by (simp only: those_map_Some)
  have rw: "reduce_worker sp fs2 = Some (SUCCESS, fs2(result_name \<mapsto> res))"
    unfolding reduce_worker_def th using red by simp
  have run: "run_job sp fs = Completed (replicate ?N SUCCESS) SUCCESS (fs2(result_name \<mapsto> res))"
    by (simp add: run_job_def fs1(1) fs2(1) codes rw)
  have "(fs2(result_name \<mapsto> res)) (split_name i) = Some (splits ! i)" if "i < ?N" for i
  proof -
    have "split_name i \<notin> itm_name ` set [0..<?N]"
    proof
      assume "split_name i \<in> itm_name ` set [0..<?N]"
      then obtain j where "split_name i = itm_name j" by blast
      with itm_name_not_split_name [of j i] show False by simp
    qed
    with fs2(3) have "fs2 (split_name i) = fs1 (split_name i)" by simp
    with fs1(2) that result_name_not_split [of i] show ?thesis by simp
  qed
  moreover have "(fs2(result_name \<mapsto> res)) (itm_name i) = Some (outs i)" if "i < ?N" for i
    using fs2(2) that result_name_not_itm [of i] by simp
  ultimately show ?thesis using run by (intro exI [of _ "fs2(result_name \<mapsto> res)"]) simp
qed

lemma word_finder_reduce_concat:
  "files \<noteq> [] \<Longrightarrow> word_finder_reduce files = Some (0, concat files)"
proof -
  have rl: "read_loop 1024 (\<lambda>read_buffer out. out @ read_buffer) data out = out @ data"
    for data out :: string
    by (rule read_loop_whole) simp_all
  have "fold (read_loop 1024 (\<lambda>read_buffer out. out @ read_buffer)) files acc
      = acc @ concat files" for acc
    by (induction files arbitrary: acc) (simp_all add: rl)
  from this [of "[]"] show "files \<noteq> [] \<Longrightarrow> ?thesis"
    by (simp add: word_finder_reduce_def)
qed

lemma word_map_empty: "word_finder_map stack (Some word) [] = Some (0, [])"
  by (simp add: word_finder_map_def wf_read_loop)

lemma copy_records_empty: "copy_records sz 0 [] [] = ([], [])"
  by (simp add: copy_records.simps fgets_def)

lemma split_loop_empty: "split_loop k sz [] = replicate k []"
  by (induction k) (simp_all add: copy_records_empty)

lemma copy_records_done: "sz \<le> b \<Longrightarrow> copy_records sz b inp out = (out, inp)"
  by (simp add: copy_records.simps)

lemma word_copy_1:
  "0 < sz \<Longrightarrow> sz \<le> 12 \<Longrightarrow>
   copy_records sz 0 (''the cat sat'' @ [newline] @ ''concatenate'' @ [newline]) []
     = (''the cat sat'' @ [newline], ''concatenate'' @ [newline])"
  by (simp add: copy_records.simps [of sz 0] copy_records_done
      fgets_def fgets_chunk_Cons strlen_def cstr_def NUL_def newline_def)

lemma word_copy_2:
  "0 < sz \<Longrightarrow> sz \<le> 12 \<Longrightarrow>
   copy_records sz 0 (''concatenate'' @ [newline]) [] = (''concatenate'' @ [newline], [])"
  by (simp add: copy_records.simps [of sz 0] copy_records_done
      fgets_def fgets_chunk_Cons strlen_def cstr_def NUL_def newline_def)

lemma word_partition_many:
  assumes "2 \<le> N" "N \<le> 24"
  shows "partition_input (''the cat sat'' @ [newline] @ ''concatenate'' @ [newline]) N
     = Some ((''the cat sat'' @ [newline]) # (''concatenate'' @ [newline]) # replicate (N - 2) [])"
proof -
  define inp where "inp = ''the cat sat'' @ [newline] @ ''concatenate'' @ [newline]"
  define sz where "sz = split_size_of inp N"
  from assms(1) obtain m where N: "N = Suc (Suc m)"
    by (cases N; cases "N - 1") auto
  have len: "length inp = 24" by (simp add: inp_def)
  have "N * 1 \<le> 24" using assms by simp
  then have pos: "0 < sz" using assms(1) by (simp add: sz_def split_size_of_def len div_greater_zero_iff)
  have "24 div N \<le> 24 div 2" using assms(1) by (intro div_le_mono2) simp_all
  then have le: "sz \<le> 12" by (simp add: sz_def split_size_of_def len)
  have "split_loop (Suc (Suc m)) sz inp
      = (''the cat sat'' @ [newline]) # (''concatenate'' @ [newline]) # replicate m []"
    unfolding inp_def
    by (simp only: split_loop.simps word_copy_1 [OF pos le] word_copy_2 [OF pos le]
        prod.case split_loop_empty)
  then show ?thesis
    by (simp add: partition_input_def sz_def inp_def N)
qed

text \<open>
  The word search job for every split count: with 2 to 24 splits the target size is at
  least 1, split 0 takes the first line, split 1 the second and the other splits are
  empty; from 25 splits on the target size is 0 and every split is empty.
\<close>

lemma word_job_simps:
  "split_num (word_job stack N) = N"
  "input_data_filepath (word_job stack N) = ''input.txt''"
  "map_func (word_job stack N) = word_finder_map stack"
  "reduce_func (word_job stack N) = word_finder_reduce"
  "usr_data (word_job stack N) = Some ''cat''"
  "word_input ''input.txt'' = Some (''the cat sat'' @ [newline] @ ''concatenate'' @ [newline])"
  by (simp_all add: word_job_def word_input_def)

lemma concat_first_only:
  "0 < N \<Longrightarrow> concat (map (\<lambda>i. if i = 0 then (x :: string) else []) [0..<N]) = x"
proof -
  assume "0 < N"
  then have "[0..<N] = 0 # [1..<N]" by (simp add: upt_conv_Cons)
  moreover have "concat (map (\<lambda>i. if i = 0 then x else []) [1..<N]) = []"
    by (induction N) auto
  ultimately show ?thesis by simp
qed

lemma word_job_result:
  assumes "1 \<le> N" "N \<le> 24"
  shows "\<exists>fs. run_job (word_job stack N) word_input = Completed (replicate N 0) 0 fs \<and>
           fs ''mr.rst'' = Some (''the cat sat'' @ [newline])"
proof (cases "N = 1")
  case True
  show ?thesis unfolding True word_run_1 by (rule exI, rule conjI, simp) simp
next
  case False
  with assms have N: "2 \<le> N" by simp
  let ?splits = "(''the cat sat'' @ [newline]) # (''concatenate'' @ [newline]) # replicate (N - 2) []"
  let ?outs = "\<lambda>i::nat. if i = 0 then ''the cat sat'' @ [newline] else []"
  have maps: "\<forall>i<split_num (word_job stack N).
      map_func (word_job stack N) (usr_data (word_job stack N)) (?splits ! i)
        = Some (SUCCESS, ?outs i)"
  proof (intro allI impI)
    fix i assume "i < split_num (word_job stack N)"
    then have i: "i < N" by (simp add: word_job_simps)
    consider "i = 0" | "i = 1" | "2 \<le> i" by linarith
    then show "map_func (word_job stack N) (usr_data (word_job stack N)) (?splits ! i)
        = Some (SUCCESS, ?outs i)"
    proof cases
      case 1
      then show ?thesis using word_map_0 [of stack] by (simp add: word_job_simps SUCCESS_def)
    next
      case 2
      then show ?thesis using word_map_1 [of stack] by (simp add: word_job_simps SUCCESS_def)
    next
      case 3
      then obtain j where j: "i = Suc (Suc j)" by (cases i; cases "i - 1") auto
      with i have "j < N - 2" by simp
      with j show ?thesis by (simp add: word_job_simps word_map_empty SUCCESS_def)
    qed
  qed
  have red: "reduce_func (word_job stack N) (map ?outs [0..<split_num (word_job stack N)])
      = Some (SUCCESS, ''the cat sat'' @ [newline])"
    using N concat_first_only [of N "''the cat sat'' @ [newline]"]
    by (simp add: word_job_simps word_finder_reduce_concat SUCCESS_def)
  have "\<exists>fs'. run_job (word_job stack N) word_input
        = Completed (replicate (split_num (word_job stack N)) SUCCESS) SUCCESS fs' \<and>
      fs' result_name = Some (''the cat sat'' @ [newline]) \<and>
      (\<forall>i<split_num (word_job stack N). fs' (itm_name i) = Some (?outs i) \<and>
          fs' (split_name i) = Some (?splits ! i))"
  proof (rule run_job_files)
    show "word_input (input_data_filepath (word_job stack N))
        = Some (''the cat sat'' @ [newline] @ ''concatenate'' @ [newline])"
      by (simp add: word_job_simps)
    show "0 < split_num (word_job stack N)" using N by (simp add: word_job_simps)
    show "split_num (word_job stack N) < 2 ^ 31" using assms(2) by (simp add: word_job_simps)
    show "partition_input (''the cat sat'' @ [newline] @ ''concatenate'' @ [newline])
        (split_num (word_job stack N)) = Some ?splits"
      using word_partition_many [OF N assms(2)] by (simp add: word_job_simps)
    show "\<forall>i<split_num (word_job stack N).
      map_func (word_job stack N) (usr_data (word_job stack N)) (?splits ! i)
        = Some (SUCCESS, ?outs i)" by (rule maps)
    show "reduce_func (word_job stack N) (map ?outs [0..<split_num (word_job stack N)])
      = Some (SUCCESS, ''the cat sat'' @ [newline])" by (rule red)
  qed
  then show ?thesis
    by (auto simp: word_job_simps SUCCESS_def result_name_def)
qed

lemma word_job_too_many_splits:
  assumes "25 \<le> N" "N < 2 ^ 31"
  shows "\<exists>fs. run_job (word_job stack N) word_input = Completed (replicate N 0) 0 fs \<and>
           fs ''mr.rst'' = Some []"
proof -
  let ?inp = "''the cat sat'' @ [newline] @ ''concatenate'' @ [newline]"
  have "\<exists>fs'. run_job (word_job stack N) word_input
        = Completed (replicate (split_num (word_job stack N)) SUCCESS) SUCCESS fs' \<and>
      fs' result_name = Some [] \<and>
      (\<forall>i<split_num (word_job stack N). fs' (itm_name i) = Some ((\<lambda>i. []) i) \<and>
          fs' (split_name i) = Some (replicate N [] ! i))"
  proof (rule run_job_files)
    show "word_input (input_data_filepath (word_job stack N)) = Some ?inp"
      by (simp add: word_job_simps)
    show "0 < split_num (word_job stack N)" using assms(1) by (simp add: word_job_simps)
    show "split_num (word_job stack N) < 2 ^ 31" using assms(2) by (simp add: word_job_simps)
    show "partition_input ?inp (split_num (word_job stack N)) = Some (replicate N [])"
      using assms(1) partition_more_splits_than_bytes [of ?inp N] by (simp add: word_job_simps)
    show "\<forall>i<split_num (word_job stack N).
      map_func (word_job stack N) (usr_data (word_job stack N)) (replicate N [] ! i)
        = Some (SUCCESS, [])"
      by (simp add: word_job_simps word_map_empty SUCCESS_def)
    show "reduce_func (word_job stack N) (map (\<lambda>i. []) [0..<split_num (word_job stack N)])
      = Some (SUCCESS, [])"
      using assms(1) by (simp add: word_job_simps word_finder_reduce_concat SUCCESS_def)
  qed
  then show ?thesis
    by (auto simp: word_job_simps SUCCESS_def result_name_def)
qed
section \<open>Claims about the partitioner\<close>

text \<open>
  Split artifact \<open>i\<close> of a job is the \<open>i\<close>-th element of \<open>partition_input\<close> applied to the
  contents of the input file and the split count (lemma \<open>split_phase_files\<close>).
\<close>

text \<open>
  C1, as stated: every split \<open>0..N-2\<close> holds only whole records and at least
  \<open>floor(totalBytes/N)\<close> bytes. It fails: the copying loop also stops when \<open>fgets\<close>
  finds the end of the input, so a split before the last can be shorter than the target.
  For the 10-byte input of the records \<open>aaaaaaa\<newline>\<close> and \<open>b\<newline>\<close> and \<open>N = 3\<close>
  the target is 3, split 0 takes the first record (8 bytes) and split 1 (index \<open>N-2\<close>) gets
  the 2 bytes that are left.
\<close>

theorem split_short_at_end_of_input:
  "partition_input (''aaaaaaa'' @ [newline] @ ''b'' @ [newline]) 3
     = Some [''aaaaaaa'' @ [newline], ''b'' @ [newline], []] \<and>
   length (''b'' @ [newline])
     < length (''aaaaaaa'' @ [newline] @ ''b'' @ [newline]) div 3"
  by code_simp

text \<open>
  C1, amended: for every input and every split count \<open>N \<ge> 2\<close>, the partitioner writes
  \<open>N\<close> splits and each split \<open>i \<le> N-2\<close> holds at least \<open>floor(totalBytes/N)\<close> bytes
  unless the input is used up when the split is closed (nothing is left unread after
  the splits \<open>0..i\<close>). For an input without NUL bytes the splits \<open>0..i\<close>, concatenated,
  followed by what is left unread are the input. For an input without NUL bytes whose
  lines are at most 1023 bytes long (newline included), split \<open>i\<close> is the concatenation
  of a run of consecutive whole records of the input. Nothing is stated about whole
  records for longer lines: there the code does cut a record (C2).
\<close>

theorem split_whole_and_size:
  assumes "2 \<le> N" and "i + 2 \<le> N"
  shows "\<exists>splits. partition_input inp N = Some splits \<and> length splits = N \<and>
           (length inp div N \<le> length (splits ! i) \<or>
            unread_after (Suc i) (length inp div N) inp = []) \<and>
           (NUL \<notin> set inp \<longrightarrow>
              concat (take (Suc i) splits) @ unread_after (Suc i) (length inp div N) inp
                = inp) \<and>
           (text_input inp \<longrightarrow> (\<exists>rs. splits ! i = concat rs \<and> sublist rs (records inp)))"
proof -
  let ?sz = "length inp div N"
  let ?splits = "split_loop N ?sz inp"
  from assms have i: "i < N" "Suc i \<le> N" "N \<noteq> 0" by simp_all
  have p: "partition_input inp N = Some ?splits"
    using i(3) by (simp add: partition_input_def split_size_of_def)
  have len: "length ?splits = N" by (rule length_split_loop)
  have size: "?sz \<le> length (?splits ! i) \<or> unread_after (Suc i) ?sz inp = []"
    using i(1) by (rule split_loop_size)
  have unread: "NUL \<notin> set inp \<longrightarrow>
      concat (take (Suc i) ?splits) @ unread_after (Suc i) ?sz inp = inp"
    using split_loop_unread [of inp "Suc i" N ?sz] i(2) by simp
  have whole: "text_input inp \<longrightarrow> (\<exists>rs. ?splits ! i = concat rs \<and> sublist rs (records inp))"
  proof
    assume t: "text_input inp"
    from split_loop_whole [OF t, of N ?sz]
    obtain rss where rss: "length rss = N" "?splits = map concat rss"
      "prefix (concat rss) (records inp)"
      by auto
    from i(1) rss(1) have il: "i < length rss" by simp
    then have "rss = take i rss @ rss ! i # drop (Suc i) rss" by (rule id_take_nth_drop)
    then have "concat rss = concat (take i rss) @ rss ! i @ concat (drop (Suc i) rss)"
      by (metis concat.simps(2) concat_append)
    moreover from rss(3) obtain tl where "records inp = concat rss @ tl"
      by (auto simp: prefix_def)
    ultimately have "sublist (rss ! i) (records inp)"
      unfolding sublist_def by (metis append.assoc)
    with rss(2) il show "\<exists>rs. ?splits ! i = concat rs \<and> sublist rs (records inp)"
      by (intro exI [of _ "rss ! i"]) simp
  qed
  from p len size unread whole show ?thesis by blast
qed

theorem split_whole_and_size_witness:
  "2 \<le> (2::nat) \<and> 0 + 2 \<le> (2::nat) \<and>
   NUL \<notin> set (''AAAB'' @ [newline] @ ''BBCC'' @ [newline]) \<and>
   text_input (''AAAB'' @ [newline] @ ''BBCC'' @ [newline]) \<and>
   (\<exists>splits. partition_input (''AAAB'' @ [newline] @ ''BBCC'' @ [newline]) 2 = Some splits \<and>
      length splits = 2 \<and>
      (length (''AAAB'' @ [newline] @ ''BBCC'' @ [newline]) div 2 \<le> length (splits ! 0) \<or>
       unread_after (Suc 0) (length (''AAAB'' @ [newline] @ ''BBCC'' @ [newline]) div 2)
         (''AAAB'' @ [newline] @ ''BBCC'' @ [newline]) = []) \<and>
      concat (take (Suc 0) splits)
        @ unread_after (Suc 0) (length (''AAAB'' @ [newline] @ ''BBCC'' @ [newline]) div 2)
            (''AAAB'' @ [newline] @ ''BBCC'' @ [newline])
        = ''AAAB'' @ [newline] @ ''BBCC'' @ [newline] \<and>
      (\<exists>rs. splits ! 0 = concat rs \<and>
         sublist rs (records (''AAAB'' @ [newline] @ ''BBCC'' @ [newline]))))"
proof -
  have n: "NUL \<notin> set (''AAAB'' @ [newline] @ ''BBCC'' @ [newline])"
    by (simp add: NUL_def newline_def)
  from split_whole_and_size [of 2 0 "''AAAB'' @ [newline] @ ''BBCC'' @ [newline]"]
    n text_input_example
  show ?thesis by simp
qed

text \<open>
  C2: the splits, concatenated, are a prefix of the input made of whole records, and no
  record is split across two splits. The copying loop reads line by line to keep records
  whole, but \<open>fgets\<close> returns at most 1023 bytes of a line and the loop counts and
  closes the split after any buffer, a full one without a newline included. The code
  breaks the claim on the input of one record, 1023 letters \<open>a\<close> and a newline, with
  \<open>N = 2\<close>: the target is 512, one \<open>fgets\<close> fills the buffer with the 1023 letters,
  which closes split 0, and the newline of the same record goes to split 1. (For inputs
  without NUL bytes the splits are always a prefix of the input, \<open>partition_prefix\<close>;
  with lines of at most 1023 bytes they are made of whole records,
  \<open>partition_whole_records\<close>.)
\<close>

theorem partition_cuts_long_record:
  "partition_input (replicate 1023 (CHR ''a'') @ [newline]) 2
     = Some [replicate 1023 (CHR ''a''), [newline]] \<and>
   records (replicate 1023 (CHR ''a'') @ [newline])
     = [replicate 1023 (CHR ''a'') @ [newline]]"
proof -
  have a: "CHR ''a'' \<noteq> newline" by (simp add: newline_def)
  have "first_record (replicate n (CHR ''a'') @ [newline])
          = (replicate n (CHR ''a'') @ [newline], [])" for n
    using a by (induction n) auto
  then have "records (replicate 1023 (CHR ''a'') @ [newline])
          = [replicate 1023 (CHR ''a'') @ [newline]]"
    by (simp add: records.simps)
  with partition_long_record show ?thesis by simp
qed
section \<open>Claims about the coordinator\<close>



text \<open>
  C4, as stated: a map worker whose terminal status indicates failure gets exactly one
  diagnostic. It fails for a worker that was killed by a signal: its status indicates
  failure, but the test of line 118 asks for a normal exit (\<open>WIFEXITED\<close>) with a
  non-zero status, so nothing is printed. In the example run worker 1 is killed by
  signal 9 and the trace has no \<open>Map_failed 1\<close>.
\<close>

theorem signal_killed_worker_gets_no_diagnostic:
  "coordinator example_env 2 =
     (Returned,
      \<lparr>trace = [Spawn_map 0 100, Spawn_map 1 101, Wait_map 0, Map_failed 0, Wait_map 1,
                Spawn_reduce 200, Wait_reduce],
       map_worker_pid = [100, 101], reduce_worker_pid = Some 200\<rparr>) \<and>
   wait_map example_env 1 = Some (Signaled 9) \<and>
   count_list [Spawn_map 0 100, Spawn_map 1 101, Wait_map 0, Map_failed 0, Wait_map 1,
               Spawn_reduce 200, Wait_reduce] (Map_failed 1) = 0"
  using example_run by (simp add: example_env_def)

text \<open>
  C4, amended: a failed \<open>fork\<close> ends the whole process at once with a diagnostic and the
  non-zero status \<open>ERROR\<close>, for a map worker (the trace is the spawns of the workers
  before it and the diagnostic; nobody is waited for) and for the reduce worker; a map
  worker that fails is not fatal: when every \<open>fork\<close> succeeds and every map worker
  terminates, all \<open>N\<close> workers are waited for, the reduce worker is spawned and the
  process does not exit, whatever the statuses are; and the trace has exactly one
  diagnostic \<open>Map_failed i\<close> for a worker \<open>i\<close> that exited with a non-zero status, and
  none for a worker that exited with status 0 or was killed by a signal.
\<close>

theorem spawn_failure_aborts_worker_failure_does_not:
  assumes "coordinator e N = (out, s)"
  shows
   "(i < N \<and> fork_map e i = Fork_failed \<and> (\<forall>j<i. fork_map e j \<noteq> Fork_failed) \<longrightarrow>
       out = Process_exit ERROR \<and> spawned (trace s) = [0..<i] \<and>
       last (trace s) = Fork_map_failed i \<and> length (trace s) = i + 1) \<and>
    ((\<forall>j<N. fork_map e j \<noteq> Fork_failed) \<and> (\<forall>j<N. wait_map e j \<noteq> None) \<and>
      fork_reduce e = Fork_failed \<longrightarrow>
       out = Process_exit ERROR \<and> last (trace s) = Fork_reduce_failed \<and>
       \<not> list_ex is_spawn_reduce (trace s)) \<and>
    exit_status ERROR \<noteq> 0 \<and>
    ((\<forall>j<N. fork_map e j \<noteq> Fork_failed) \<and> (\<forall>j<N. wait_map e j \<noteq> None) \<and>
      fork_reduce e = Forked p \<and> i < N \<and> wait_map e i = Some st \<longrightarrow>
       count_list (trace s) (Map_failed i)
         = (case st of Exited c \<Rightarrow> if c = 0 then 0 else 1 | Signaled sg \<Rightarrow> 0) \<and>
       waited (trace s) = [0..<N] \<and> Spawn_reduce p \<in> set (trace s) \<and>
       (\<forall>c. out \<noteq> Process_exit c))"
proof (cases rule: coordinator_cases [of N e])
  case (fork_failed as i' bs)
  from upt_split_prefix [OF fork_failed(1)] have as: "as = [0..<i']" and i': "i' < N"
    by simp_all
  have first: "i = i'"
    if "i < N" "fork_map e i = Fork_failed" "\<forall>j<i. fork_map e j \<noteq> Fork_failed"
  proof (rule ccontr)
    assume "i \<noteq> i'"
    then consider "i < i'" | "i' < i" by linarith
    then show False
    proof cases
      case 1
      with fork_failed(3) as that(2) show False by auto
    next
      case 2
      with that(3) fork_failed(2) show False by auto
    qed
  qed
  from fork_failed(4) assms as
  have s: "out = Process_exit ERROR" "trace s = spawn_trace e [0..<i'] @ [Fork_map_failed i']"
    by auto
  from fork_failed(2) i' have some: "\<not> (\<forall>j<N. fork_map e j \<noteq> Fork_failed)" by auto
  from s some first show ?thesis
    by (auto simp: trace_simps exit_status_ERROR)
next
  case (wait_blocked as i' bs)
  from upt_split_prefix [OF wait_blocked(2)] have "i' < N" by simp
  with wait_blocked(3) have "\<not> (\<forall>j<N. wait_map e j \<noteq> None)" by auto
  with wait_blocked(1) show ?thesis by (auto simp: exit_status_ERROR)
next
  case reduce_fork_failed
  from reduce_fork_failed(4) assms
  have s: "out = Process_exit ERROR"
    "trace s = spawn_trace e [0..<N] @ wait_trace e [0..<N] @ [Fork_reduce_failed]"
    by auto
  from s reduce_fork_failed(1,3) show ?thesis
    by (auto simp: trace_simps exit_status_ERROR)
next
  case (reduce_blocked pid)
  from reduce_blocked(5) assms
  have s: "out = Blocked"
    "trace s = spawn_trace e [0..<N] @ wait_trace e [0..<N] @ [Spawn_reduce pid]"
    by auto
  from s reduce_blocked(1,3) show ?thesis
    by (auto simp: trace_simps wait_trace_count count_list_upt exit_status_ERROR
        reports_failure_def SUCCESS_def split: wstatus.splits)
next
  case (returned pid)
  from returned(5) assms
  have s: "out = Returned"
    "trace s = spawn_trace e [0..<N] @ wait_trace e [0..<N] @
       Spawn_reduce pid # Wait_reduce # reduce_diag e"
    by auto
  from s returned(1,3) show ?thesis
    by (auto simp: trace_simps wait_trace_count count_list_upt exit_status_ERROR
        reports_failure_def SUCCESS_def split: wstatus.splits)
qed

theorem spawn_failure_aborts_worker_failure_does_not_witness:
  "coordinator fork_failure_env 2 =
     (Process_exit ERROR,
      \<lparr>trace = [Spawn_map 0 100, Fork_map_failed 1],
       map_worker_pid = [100], reduce_worker_pid = None\<rparr>) \<and>
   fork_map fork_failure_env 1 = Fork_failed \<and>
   fork_map fork_failure_env 0 \<noteq> Fork_failed \<and>
   last (trace (snd (coordinator fork_failure_env 2))) = Fork_map_failed 1 \<and>
   coordinator reduce_fork_failure_env 2 =
     (Process_exit ERROR,
      \<lparr>trace = [Spawn_map 0 100, Spawn_map 1 101, Wait_map 0, Wait_map 1, Fork_reduce_failed],
       map_worker_pid = [100, 101], reduce_worker_pid = None\<rparr>) \<and>
   fork_reduce reduce_fork_failure_env = Fork_failed \<and>
   last (trace (snd (coordinator reduce_fork_failure_env 2))) = Fork_reduce_failed \<and>
   exit_status ERROR \<noteq> 0 \<and>
   wait_map example_env 0 = Some (Exited 1) \<and>
   count_list (trace (snd (coordinator example_env 2))) (Map_failed 0) = 1 \<and>
   wait_map example_env 1 = Some (Signaled 9) \<and>
   count_list (trace (snd (coordinator example_env 2))) (Map_failed 1) = 0 \<and>
   waited (trace (snd (coordinator example_env 2))) = [0..<2] \<and>
   Spawn_reduce 200 \<in> set (trace (snd (coordinator example_env 2)))"
proof -
  have a: "fork_map fork_failure_env 1 = Fork_failed"
    "\<forall>j<1. fork_map fork_failure_env j \<noteq> Fork_failed"
    by (simp_all add: fork_failure_env_def)
  have b: "\<forall>j<2. fork_map reduce_fork_failure_env j \<noteq> Fork_failed"
    "\<forall>j<2. wait_map reduce_fork_failure_env j \<noteq> None"
    "fork_reduce reduce_fork_failure_env = Fork_failed"
    by (simp_all add: reduce_fork_failure_env_def)
  have c: "\<forall>j<2. fork_map example_env j \<noteq> Fork_failed"
    "\<forall>j<2. wait_map example_env j \<noteq> None"
    "fork_reduce example_env = Forked 200" "wait_map example_env 0 = Some (Exited 1)"
    "wait_map example_env 1 = Some (Signaled 9)"
    by (simp_all add: example_env_def)
  from spawn_failure_aborts_worker_failure_does_not [OF fork_failure_run, of 1 200 "Exited 1"]
    spawn_failure_aborts_worker_failure_does_not [OF reduce_fork_failure_run, of 0 200 "Exited 1"]
    spawn_failure_aborts_worker_failure_does_not [OF example_run, of 0 200 "Exited 1"]
    spawn_failure_aborts_worker_failure_does_not [OF example_run, of 1 200 "Signaled 9"]
    a b c
  show ?thesis
    by (simp add: fork_failure_run reduce_fork_failure_run example_run)
qed

text \<open>
  C6: the list of map worker ids in the result is written at spawn time. If the first
  \<open>k\<close> forks succeed with the process ids \<open>pid 0, ..., pid (k-1)\<close> (pairwise different,
  as the ids of children that were not yet waited for are) and either \<open>k = N\<close> or the
  next fork fails, then however the run ends (also when no worker ever terminates) the
  list is \<open>pid 0, ..., pid (k-1)\<close>: one entry per spawned worker, in index order, all
  distinct; and a run that returns has \<open>k = N\<close>, so the list has exactly \<open>N\<close> entries.
\<close>

theorem worker_pids_recorded_at_spawn:
  assumes "coordinator e N = (out, s)"
    and "k \<le> N" and "\<forall>i<k. fork_map e i = Forked (pid i)"
    and "k < N \<longrightarrow> fork_map e k = Fork_failed"
    and "inj_on pid {..<k}"
  shows "spawned (trace s) = [0..<k] \<and> map_worker_pid s = map pid [0..<k] \<and>
         length (map_worker_pid s) = k \<and> distinct (map_worker_pid s) \<and>
         (out = Returned \<longrightarrow> k = N)"
proof -
  have pid: "map (\<lambda>j. pid_of (fork_map e j)) [0..<k] = map pid [0..<k]"
    using assms(3) by (simp add: pid_of_def)
  have dist: "distinct (map pid [0..<k])"
    using assms(5) by (simp add: distinct_map inj_on_def)
  have all: "k = N" if "\<forall>j<N. fork_map e j \<noteq> Fork_failed"
    using that assms(2,4) by (cases "k < N") auto
  have concl: ?thesis
    if "spawned (trace s) = [0..<k]"
      and "map_worker_pid s = map (\<lambda>j. pid_of (fork_map e j)) [0..<k]"
      and "out = Returned \<longrightarrow> k = N"
    using that pid dist by simp
  show ?thesis
  proof (cases rule: coordinator_cases [of N e])
    case (fork_failed as i bs)
    from upt_split_prefix [OF fork_failed(1)] have as: "as = [0..<i]" and i: "i < N" by simp_all
    have "i = k"
    proof (rule ccontr)
      assume "i \<noteq> k"
      then consider "i < k" | "k < i" by linarith
      then show False
      proof cases
        case 1
        with assms(3) fork_failed(2) show False by simp
      next
        case 2
        with i assms(4) fork_failed(3) as show False by auto
      qed
    qed
    with fork_failed(4) as assms(1) show ?thesis by (intro concl) (auto simp: trace_simps)
  next
    case (wait_blocked as i bs)
    from all [OF wait_blocked(1)] wait_blocked(5) assms(1) show ?thesis
      by (intro concl) (auto simp: trace_simps)
  next
    case reduce_fork_failed
    from all [OF reduce_fork_failed(1)] reduce_fork_failed(4) assms(1) show ?thesis
      by (intro concl) (auto simp: trace_simps)
  next
    case (reduce_blocked p)
    from all [OF reduce_blocked(1)] reduce_blocked(5) assms(1) show ?thesis
      by (intro concl) (auto simp: trace_simps)
  next
    case (returned p)
    from all [OF returned(1)] returned(5) assms(1) show ?thesis
      by (intro concl) (auto simp: trace_simps)
  qed
qed

theorem worker_pids_recorded_at_spawn_witness:
  "coordinator example_env 2 =
     (Returned,
      \<lparr>trace = [Spawn_map 0 100, Spawn_map 1 101, Wait_map 0, Map_failed 0, Wait_map 1,
                Spawn_reduce 200, Wait_reduce],
       map_worker_pid = [100, 101], reduce_worker_pid = Some 200\<rparr>) \<and>
   inj_on (\<lambda>i. 100 + int i) {..<2} \<and>
   map_worker_pid (snd (coordinator example_env 2)) = map (\<lambda>i. 100 + int i) [0..<2] \<and>
   length (map_worker_pid (snd (coordinator example_env 2))) = 2 \<and>
   distinct (map_worker_pid (snd (coordinator example_env 2)))"
proof -
  have inj: "inj_on (\<lambda>i. 100 + int i) {..<2}" by (simp add: inj_on_def)
  have fk: "\<forall>i<2. fork_map example_env i = Forked (100 + int i)"
    by (simp add: example_env_def)
  have "(2::nat) \<le> 2" by simp
  from worker_pids_recorded_at_spawn [OF example_run this fk _ inj] inj example_run
  show ?thesis by (simp add: upt_2)
qed

text \<open>
  C9: the coordinator prints a failure diagnostic for a worker only if that worker
  exited normally with a non-zero status; a map or reduce worker that was killed by a
  signal gets no diagnostic.
\<close>

theorem failures_are_diagnosed_only_for_nonzero_exit:
  assumes "coordinator e N = (out, s)"
  shows "(Map_failed i \<in> set (trace s) \<longrightarrow> (\<exists>c. wait_map e i = Some (Exited c) \<and> c \<noteq> 0)) \<and>
         (Reduce_failed \<in> set (trace s) \<longrightarrow> (\<exists>c. wait_reduce e = Some (Exited c) \<and> c \<noteq> 0)) \<and>
         (wait_map e i = Some (Signaled sg) \<longrightarrow> Map_failed i \<notin> set (trace s)) \<and>
         (wait_reduce e = Some (Signaled sg') \<longrightarrow> Reduce_failed \<notin> set (trace s))"
proof (cases rule: coordinator_cases [of N e])
  case (fork_failed as i' bs)
  with assms show ?thesis by (auto simp: trace_simps)
next
  case (wait_blocked as i' bs)
  then have "\<forall>j\<in>set as. j < N" 
    using upt_split_prefix [of N as i' bs] by auto
  with wait_blocked assms show ?thesis
    by (auto simp: trace_simps wait_trace_Map_failed reports_failure_iff)
next
  case reduce_fork_failed
  with assms show ?thesis
    by (auto simp: trace_simps wait_trace_Map_failed reports_failure_iff)
next
  case (reduce_blocked pid)
  with assms show ?thesis
    by (auto simp: trace_simps wait_trace_Map_failed reports_failure_iff)
next
  case (returned pid)
  with assms show ?thesis
    by (auto simp: trace_simps wait_trace_Map_failed reports_failure_iff reduce_diag_def)
qed

theorem failures_are_diagnosed_only_for_nonzero_exit_witness:
  "wait_map example_env 1 = Some (Signaled 9) \<and>
   Map_failed 1 \<notin> set (trace (snd (coordinator example_env 2))) \<and>
   wait_reduce example_env = Some (Signaled 15) \<and>
   Reduce_failed \<notin> set (trace (snd (coordinator example_env 2))) \<and>
   Map_failed 0 \<in> set (trace (snd (coordinator example_env 2))) \<and>
   (\<exists>c. wait_map example_env 0 = Some (Exited c) \<and> c \<noteq> 0)"
proof -
  have e: "wait_map example_env 1 = Some (Signaled 9)"
    "wait_reduce example_env = Some (Signaled 15)"
    "wait_map example_env 0 = Some (Exited 1)"
    by (simp_all add: example_env_def)
  from failures_are_diagnosed_only_for_nonzero_exit [OF example_run, of 1 9 15] e
  show ?thesis by (simp add: example_run)
qed

section \<open>Claims about the files of a job\<close>

text \<open>
  C5, as stated: every intermediate file \<open>mr-i.itm\<close> exists, created empty, before any map
  worker starts. It fails: phase 1 only builds the names (lines 69-70); the file is
  created by the worker itself (line 92). For the letter counting job in a directory
  that holds only the input, the directory after phase 1 holds the two splits and no
  \<open>mr-0.itm\<close>.
\<close>

theorem no_intermediate_file_before_workers:
  "split_phase letter_job letter_input = Inr letter_splits \<and>
   letter_splits (itm_name 0) = None"
  using letter_split_phase
  by (simp add: letter_splits_def letter_input_def names_0_1)

text \<open>
  C5, amended: phase 1 leaves every \<open>mr-i.itm\<close> as it was before the job (absent in a
  fresh directory); map worker \<open>i\<close>, once it has opened its split, creates or truncates
  \<open>mr-i.itm\<close> itself and leaves in it what the map function wrote; and no other map
  worker \<open>j\<close> changes \<open>mr-i.itm\<close> (indices are C \<open>int\<close>s, below \<open>2^31\<close>).
\<close>

theorem intermediate_files_created_by_their_workers:
  "(split_phase sp fs0 = Inr fs1 \<longrightarrow> fs1 (itm_name i) = fs0 (itm_name i)) \<and>
   (map_worker sp i fs = Some (code, fs') \<and> fs (split_name i) = Some split \<longrightarrow>
      (\<exists>st out. map_func sp (usr_data sp) split = Some (st, out) \<and>
                fs' (itm_name i) = Some out)) \<and>
   (map_worker sp j fs = Some (code_j, fs_j) \<and> i < 2 ^ 31 \<and> j < 2 ^ 31 \<and> j \<noteq> i \<longrightarrow>
      fs_j (itm_name i) = fs (itm_name i))"
proof (intro conjI impI)
  assume "split_phase sp fs0 = Inr fs1"
  then show "fs1 (itm_name i) = fs0 (itm_name i)" by (rule split_phase_keeps_itm)
next
  assume "map_worker sp i fs = Some (code, fs') \<and> fs (split_name i) = Some split"
  then show "\<exists>st out. map_func sp (usr_data sp) split = Some (st, out) \<and>
                fs' (itm_name i) = Some out"
    by (auto simp: map_worker_def split: option.splits)
next
  assume a: "map_worker sp j fs = Some (code_j, fs_j) \<and> i < 2 ^ 31 \<and> j < 2 ^ 31 \<and> j \<noteq> i"
  then have "itm_name i \<noteq> itm_name j" using itm_name_inj [of i j] by auto
  with a show "fs_j (itm_name i) = fs (itm_name i)"
    by (auto simp: map_worker_def split: option.splits)
qed

theorem intermediate_files_created_by_their_workers_witness:
  "split_phase letter_job letter_input = Inr letter_splits \<and>
   letter_splits (itm_name 0) = letter_input (itm_name 0) \<and>
   map_worker letter_job 0 letter_splits
     = Some (0, letter_splits(''mr-0.itm'' \<mapsto> ''A 3'' @ [newline] @ ''B 1'' @ [newline])) \<and>
   letter_splits (split_name 0) = Some (''AAAB'' @ [newline]) \<and>
   (letter_splits(''mr-0.itm'' \<mapsto> ''A 3'' @ [newline] @ ''B 1'' @ [newline])) (itm_name 0)
     = Some (''A 3'' @ [newline] @ ''B 1'' @ [newline]) \<and>
   map_worker letter_job (Suc 0) letter_splits
     = Some (0, letter_splits(''mr-1.itm'' \<mapsto> ''B 2'' @ [newline] @ ''C 2'' @ [newline])) \<and>
   (letter_splits(''mr-1.itm'' \<mapsto> ''B 2'' @ [newline] @ ''C 2'' @ [newline])) (itm_name 0)
     = letter_splits (itm_name 0)"
proof -
  have s: "letter_splits (split_name 0) = Some (''AAAB'' @ [newline])"
    by (simp add: letter_splits_def names_0_1)
  have b: "(0::nat) < 2 ^ 31" "Suc 0 < 2 ^ 31" "Suc 0 \<noteq> 0" by simp_all
  from intermediate_files_created_by_their_workers
    [of letter_job letter_input letter_splits 0 letter_splits 0
        "letter_splits(''mr-0.itm'' \<mapsto> ''A 3'' @ [newline] @ ''B 1'' @ [newline])"
        "''AAAB'' @ [newline]" "Suc 0" 0
        "letter_splits(''mr-1.itm'' \<mapsto> ''B 2'' @ [newline] @ ''C 2'' @ [newline])"]
    letter_split_phase letter_worker_0 letter_worker_1 s b
  show ?thesis by (simp add: names_0_1)
qed

text \<open>
  C7: letter counting, end to end. For the input \<open>AAAB\<newline>BBCC\<newline>\<close> and split
  count 2, in a directory that holds only the input, the job completes with both map
  workers and the reduce worker exiting with status 0, and leaves
  \<open>split-0 = AAAB\<newline>\<close>, \<open>split-1 = BBCC\<newline>\<close>, \<open>mr-0.itm = A 3\<newline>B 1\<newline>\<close>,
  \<open>mr-1.itm = B 2\<newline>C 2\<newline>\<close> and \<open>mr.rst = A 3\<newline>B 3\<newline>C 2\<newline>\<close>.
\<close>

theorem letter_count_end_to_end:
  "\<exists>fs. run_job letter_job letter_input = Completed [0, 0] 0 fs \<and>
     fs ''split-0'' = Some (''AAAB'' @ [newline]) \<and>
     fs ''split-1'' = Some (''BBCC'' @ [newline]) \<and>
     fs ''mr-0.itm'' = Some (''A 3'' @ [newline] @ ''B 1'' @ [newline]) \<and>
     fs ''mr-1.itm'' = Some (''B 2'' @ [newline] @ ''C 2'' @ [newline]) \<and>
     fs ''mr.rst'' = Some (''A 3'' @ [newline] @ ''B 3'' @ [newline] @ ''C 2'' @ [newline])"
  unfolding letter_run
  by (rule exI, rule conjI, rule refl) (simp add: letter_splits_def)

text \<open>
  C8, as stated: word search for \<open>cat\<close>, end to end, for the input of the two lines
  \<open>the cat sat\<close> and \<open>concatenate\<close> (each ended by a newline); the claim names no
  split count. It fails from 25 splits on: the input has 24 bytes, the target size
  \<open>24 div 25\<close> is 0, the copying loop is never entered, every split is empty and the
  job completes with an empty result file \<open>mr.rst\<close>, without the line \<open>the cat sat\<close>.
\<close>

theorem word_search_drops_input_with_25_splits:
  "\<exists>fs. run_job (word_job (replicate 1024 NUL) 25) word_input
          = Completed (replicate 25 0) 0 fs \<and>
        fs ''mr.rst'' = Some []"
  by (rule word_job_too_many_splits) simp_all

text \<open>
  C8, amended: for every split count from 1 to 24, and whatever the uninitialised line
  buffer holds, the job completes and the result file \<open>mr.rst\<close> is the one line
  \<open>the cat sat\<close>. The search is the word-boundary rule of the claim: for every line
  and every word that is not empty and has no space in it, the search loop accepts the
  line exactly when the word stands somewhere in it with the start of the line or a
  space before it and the end of the line, a comma, a full stop or a space after it
  (\<open>whole_word_at\<close>); it accepts \<open>cat\<close> in \<open>the cat sat\<close> (position 4) and rejects it
  in \<open>concatenate\<close>.
\<close>

theorem word_search_end_to_end:
  "(1 \<le> N \<and> N \<le> 24 \<longrightarrow>
      (\<exists>fs. run_job (word_job stack N) word_input = Completed (replicate N 0) 0 fs \<and>
            fs ''mr.rst'' = Some (''the cat sat'' @ [newline]))) \<and>
   (w \<noteq> [] \<and> CHR '' '' \<notin> set w \<longrightarrow>
      word_search line w 0 = Some (\<exists>q. whole_word_at line w q)) \<and>
   word_search ''the cat sat'' ''cat'' 0 = Some True \<and>
   word_search ''concatenate'' ''cat'' 0 = Some False"
proof (intro conjI impI)
  assume "1 \<le> N \<and> N \<le> 24"
  then show "\<exists>fs. run_job (word_job stack N) word_input = Completed (replicate N 0) 0 fs \<and>
            fs ''mr.rst'' = Some (''the cat sat'' @ [newline])"
    using word_job_result by blast
next
  assume "w \<noteq> [] \<and> CHR '' '' \<notin> set w"
  then show "word_search line w 0 = Some (\<exists>q. whole_word_at line w q)"
    using word_search_whole_word [of w line 0] by simp
qed (rule word_search_the_cat_sat word_search_concatenate)+

theorem word_search_end_to_end_witness:
  "(\<exists>fs. run_job (word_job (replicate 1024 NUL) 3) word_input
            = Completed (replicate 3 0) 0 fs \<and>
          fs ''mr.rst'' = Some (''the cat sat'' @ [newline])) \<and>
   ''cat'' \<noteq> [] \<and> CHR '' '' \<notin> set ''cat'' \<and>
   word_search ''the cat sat'' ''cat'' 0 = Some True \<and>
   whole_word_at ''the cat sat'' ''cat'' 4 \<and>
   word_search ''concatenate'' ''cat'' 0 = Some False \<and>
   \<not> (\<exists>q. whole_word_at ''concatenate'' ''cat'' q)"
proof -
  have n: "(1::nat) \<le> 3 \<and> (3::nat) \<le> 24" by simp
  have w: "''cat'' \<noteq> [] \<and> CHR '' '' \<notin> set ''cat''" by simp
  have at: "whole_word_at ''the cat sat'' ''cat'' 4" by (simp add: whole_word_at_def)
  note t = word_search_end_to_end [of 3 "replicate 1024 NUL" "''cat''" "''concatenate''"]
  from t w have "word_search ''concatenate'' ''cat'' 0
      = Some (\<exists>q. whole_word_at ''concatenate'' ''cat'' q)" by blast
  with word_search_concatenate have no: "\<not> (\<exists>q. whole_word_at ''concatenate'' ''cat'' q)"
    by simp
  from t n have "\<exists>fs. run_job (word_job (replicate 1024 NUL) 3) word_input
            = Completed (replicate 3 0) 0 fs \<and>
          fs ''mr.rst'' = Some (''the cat sat'' @ [newline])" by blast
  with w at no t show ?thesis by blast
qed

text \<open>
  C10: \<open>word_finder_map\<close> never looks at a last line that has no newline and is shorter
  than 1023 bytes. If the split is \<open>body @ last_line\<close>, where \<open>body\<close> is empty or ends
  with a newline and \<open>last_line\<close> has no newline and fewer than 1023 bytes, then the
  function returns the same value and writes the same bytes as on \<open>body\<close> alone,
  whatever \<open>last_line\<close> is; in the example that follows the theorem the dropped last
  line is \<open>cat\<close>, a match.
\<close>

theorem word_finder_map_skips_unterminated_last_line:
  assumes "newline \<notin> set last_line" and "length last_line < 1023"
    and "body = [] \<or> last body = newline"
  shows "word_finder_map stack ud (body @ last_line) = word_finder_map stack ud body"
proof (cases ud)
  case None
  then show ?thesis by (simp add: word_finder_map_def)
next
  case (Some word)
  let ?s0 = "\<lparr>current_line = [], original_line_copy = stack, written = []\<rparr>"
  let ?w = "cstr word"
  have "map_option written (wf_buffer ?w (body @ last_line) (Some ?s0))
      = map_option written (wf_buffer ?w body (Some ?s0))"
  proof (cases "wf_buffer ?w body (Some ?s0)")
    case None
    then show ?thesis by (simp add: wf_buffer_append wf_buffer_None)
  next
    case (Some s1)
    have "current_line s1 = []"
    proof (cases "body = []")
      case True
      with Some show ?thesis by auto
    next
      case False
      with assms(3) have "last body = newline" by simp
      from wf_buffer_ends_line [OF False this Some] show ?thesis .
    qed
    with assms(1,2) have "wf_buffer ?w last_line (Some s1)
        = Some (s1\<lparr>current_line := current_line s1 @ last_line\<rparr>)"
      by (intro wf_buffer_partial_line) simp_all
    with Some show ?thesis by (simp add: wf_buffer_append)
  qed
  then show ?thesis
    unfolding word_finder_map_def Some wf_read_loop
    by (cases "wf_buffer ?w (body @ last_line) (Some ?s0)";
        cases "wf_buffer ?w body (Some ?s0)") simp_all
qed

theorem word_finder_map_skips_unterminated_last_line_witness:
  "newline \<notin> set ''cat'' \<and> length ''cat'' < 1023 \<and>
   last (''the cat sat'' @ [newline]) = newline \<and>
   word_finder_map (replicate 1024 NUL) (Some ''cat'')
       ((''the cat sat'' @ [newline]) @ ''cat'')
     = Some (0, ''the cat sat'' @ [newline])"
proof -
  have a: "newline \<notin> set ''cat''" "length ''cat'' < 1023"
    "''the cat sat'' @ [newline] = [] \<or> last (''the cat sat'' @ [newline]) = newline"
    by (simp_all add: newline_def)
  from word_finder_map_skips_unterminated_last_line
      [OF a, of "replicate 1024 NUL" "Some ''cat''"]
    word_map_0 [of "replicate 1024 NUL"] a(1,2)
  show ?thesis by simp
qed

end
